theory Spec2Isabelle
  imports Main
begin

section \<open>Workflow graphs\<close>

text \<open>
  The workflow editors keep a graph as two arrays, \<open>nodes\<close> and \<open>edges\<close>.  Of a node the
  validators read \<open>id\<close>, \<open>type\<close> and the display name (\<open>data.label\<close> in
  \<open>WorkflowBuilder.tsx\<close> and \<open>workflow/[id]/page.tsx\<close>, \<open>data.name\<close> in
  \<open>workflow-designer.tsx\<close>); of an edge they read \<open>id\<close>, \<open>source\<close> and \<open>target\<close>.
  The connection handler of the canvas also sets \<open>animated\<close> and \<open>type\<close>, which an edge
  from elsewhere may lack.
\<close>

record node =
  node_id :: string
  node_type :: string
  node_label :: string

record edge =
  edge_id :: string
  source :: string
  target :: string
  animated :: "bool option"
  edge_type :: "string option"

record workflow_definition =
  nodes :: "node list"
  edges :: "edge list"


section \<open>Strings\<close>

text \<open>
  Template literals print an array length in decimal; \<open>Array.prototype.join\<close> puts the
  separator between the elements; \<open>String.prototype.includes\<close> looks for a substring.
\<close>

definition digitChar :: "nat \<Rightarrow> char" where
  "digitChar d = ''0123456789'' ! d"

fun showNat :: "nat \<Rightarrow> string" where
  "showNat n = (if n < 10 then [digitChar n] else showNat (n div 10) @ [digitChar (n mod 10)])"

declare showNat.simps [simp del]

fun join :: "string \<Rightarrow> string list \<Rightarrow> string" where
  "join sep [] = []"
| "join sep [x] = x"
| "join sep (x # y # ys) = x @ sep @ join sep (y # ys)"

fun startsWith :: "string \<Rightarrow> string \<Rightarrow> bool" where
  "startsWith s [] = True"
| "startsWith [] (p # ps) = False"
| "startsWith (c # cs) (p # ps) = (c = p \<and> startsWith cs ps)"

fun includes_str :: "string \<Rightarrow> string \<Rightarrow> bool" where
  "includes_str [] p = (p = [])"
| "includes_str (c # cs) p = (startsWith (c # cs) p \<or> includes_str cs p)"

definition isDigit :: "char \<Rightarrow> bool" where
  "isDigit c = (48 \<le> (of_char c :: nat) \<and> (of_char c :: nat) \<le> 57)"


section \<open>Objects used as dictionaries\<close>

text \<open>
  The adjacency list of the cycle check is a JavaScript object created by \<open>{}\<close>, with
  string keys: here an association list of its own properties, with distinct keys in the
  order of their creation.  \<open>obj[k] = v\<close> replaces the value of an existing key in place
  and appends a new key.  Reading \<open>obj[k]\<close> gives the own property if there is one;
  otherwise it gives the member that the object inherits from \<open>Object.prototype\<close> when
  \<open>k\<close> names one (a function, or the prototype itself for \<open>__proto__\<close>), and
  \<open>undefined\<close> when it does not.  An inherited member is truthy, has no \<open>push\<close> and
  cannot be iterated: calling \<open>push\<close> on it or running \<open>for ... of\<close> over it throws
  a \<open>TypeError\<close>.

  \<open>for (const k in obj)\<close> enumerates the keys that are array indices (the canonical
  decimal numerals below \<open>2^32 - 1\<close>) first, in ascending numeric order, and then the
  others in the order of their creation.
\<close>

type_synonym adjacency = "(string \<times> string list) list"

datatype js_error = TypeError

datatype prop_value = Undefined | ArrayValue "string list" | Inherited

definition objectPrototypeNames :: "string list" where
  "objectPrototypeNames =
     [''constructor'', ''__defineGetter__'', ''__defineSetter__'', ''hasOwnProperty'',
      ''__lookupGetter__'', ''__lookupSetter__'', ''isPrototypeOf'', ''propertyIsEnumerable'',
      ''toString'', ''valueOf'', ''__proto__'', ''toLocaleString'']"

definition getProp :: "adjacency \<Rightarrow> string \<Rightarrow> prop_value" where
  "getProp obj k =
     (case map_of obj k of
        Some v \<Rightarrow> ArrayValue v
      | None \<Rightarrow> if k \<in> set objectPrototypeNames then Inherited else Undefined)"

fun setProp :: "string \<Rightarrow> 'v \<Rightarrow> (string \<times> 'v) list \<Rightarrow> (string \<times> 'v) list" where
  "setProp k v [] = [(k, v)]"
| "setProp k v ((k', v') # ps) =
     (if k = k' then (k, v) # ps else (k', v') # setProp k v ps)"

definition digitVal :: "char \<Rightarrow> int" where
  "digitVal c = of_char c - 48"

definition parseIndex :: "string \<Rightarrow> int" where
  "parseIndex s = foldl (\<lambda>a c. 10 * a + digitVal c) 0 s"

text \<open>The bound is \<open>2^32 - 1\<close>, written out.\<close>

definition isArrayIndex :: "string \<Rightarrow> bool" where
  "isArrayIndex s =
     (s \<noteq> [] \<and> list_all isDigit s \<and> (s = ''0'' \<or> hd s \<noteq> CHR ''0'') \<and>
      parseIndex s < 4294967295)"

definition ownKeys :: "(string \<times> 'v) list \<Rightarrow> string list" where
  "ownKeys obj =
     sort_key parseIndex (filter isArrayIndex (map fst obj)) @
     filter (\<lambda>k. \<not> isArrayIndex k) (map fst obj)"

text \<open>
  \<open>graph[node] || []\<close> followed by \<open>for (const neighbor of ...)\<close>: an array, even an
  empty one, is truthy and is iterated; \<open>undefined\<close> gives the empty array; an inherited
  member is truthy and the loop throws.
\<close>

definition neighbors :: "adjacency \<Rightarrow> string \<Rightarrow> js_error + string list" where
  "neighbors graph node =
     (case getProp graph node of
        Undefined \<Rightarrow> Inr []
      | ArrayValue ns \<Rightarrow> Inr ns
      | Inherited \<Rightarrow> Inl TypeError)"

text \<open>
  One round of the loop that fills the adjacency list:
  \<open>if (!graph[edge.source]) graph[edge.source] = []; graph[edge.source].push(edge.target)\<close>.
  Only \<open>undefined\<close> is falsy here.
\<close>

definition pushEdge :: "adjacency \<Rightarrow> edge \<Rightarrow> js_error + adjacency" where
  "pushEdge graph e =
     (let graph1 = (if getProp graph (source e) = Undefined
                    then setProp (source e) [] graph else graph)
      in case getProp graph1 (source e) of
           ArrayValue ns \<Rightarrow> Inr (setProp (source e) (ns @ [target e]) graph1)
         | Inherited \<Rightarrow> Inl TypeError
         | Undefined \<Rightarrow> Inl TypeError)"

fun pushEdges :: "adjacency \<Rightarrow> edge list \<Rightarrow> js_error + adjacency" where
  "pushEdges graph [] = Inr graph"
| "pushEdges graph (e # es) =
     (case pushEdge graph e of Inl err \<Rightarrow> Inl err | Inr graph' \<Rightarrow> pushEdges graph' es)"

definition adjacencyList :: "edge list \<Rightarrow> js_error + adjacency" where
  "adjacencyList es = pushEdges [] es"


section \<open>Cycle detection\<close>

text \<open>The two sets \<open>visited\<close> and \<open>recStack\<close> that the depth-first search mutates.\<close>

record dfs_state =
  visited :: "string set"
  recStack :: "string set"

definition emptyState :: dfs_state where
  "emptyState = \<lparr>visited = {}, recStack = {}\<rparr>"

definition enter :: "string \<Rightarrow> dfs_state \<Rightarrow> dfs_state" where
  "enter node s = s\<lparr>visited := insert node (visited s), recStack := insert node (recStack s)\<rparr>"

definition leave :: "string \<Rightarrow> dfs_state \<Rightarrow> dfs_state" where
  "leave node s = s\<lparr>recStack := recStack s - {node}\<rparr>"

text \<open>How many keys of the adjacency list the search has not visited yet.\<close>

definition unvisitedKeys :: "adjacency \<Rightarrow> dfs_state \<Rightarrow> nat" where
  "unvisitedKeys g s = card (fst ` set g - visited s)"

lemma neighbors_key: "neighbors g n = Inr ns \<Longrightarrow> ns \<noteq> [] \<Longrightarrow> n \<in> fst ` set g"
  by (auto simp: neighbors_def getProp_def split: option.splits if_splits
      dest: map_of_SomeD intro: rev_image_eqI)

lemma unvisitedKeys_mono:
  "visited s \<subseteq> visited s' \<Longrightarrow> unvisitedKeys g s' \<le> unvisitedKeys g s"
  unfolding unvisitedKeys_def by (intro card_mono) auto

lemma unvisitedKeys_less:
  "n \<in> fst ` set g \<Longrightarrow> n \<notin> visited s \<Longrightarrow> insert n (visited s) \<subseteq> visited s'
   \<Longrightarrow> unvisitedKeys g s' < unvisitedKeys g s"
  unfolding unvisitedKeys_def by (intro psubset_card_mono) auto

lemma unvisitedKeys_enter_le: "unvisitedKeys g (enter n s) \<le> unvisitedKeys g s"
  by (rule unvisitedKeys_mono) (auto simp: enter_def)

lemma unvisitedKeys_enter_less:
  "n \<in> fst ` set g \<Longrightarrow> n \<notin> visited s \<Longrightarrow> unvisitedKeys g (enter n s) < unvisitedKeys g s"
  by (rule unvisitedKeys_less[of n]) (auto simp: enter_def)

subsection \<open>\<open>WorkflowBuilder.tsx\<close> and \<open>workflow/[id]/page.tsx\<close>\<close>

text \<open>
  The inner function \<open>hasCycle(node)\<close> of \<open>detectCycle\<close>, the same text in both files.
  \<open>hasCycle_for\<close> is its \<open>for (const neighbor of neighbors)\<close> loop; the second test of
  the loop body, \<open>recStack.has(neighbor)\<close>, reads the sets as the recursive call left them.
  A result \<open>Inr (b, s)\<close> pairs the returned boolean with the sets after the call;
  \<open>Inl TypeError\<close> is the exception, which ends the whole search.
\<close>

function hasCycle :: "adjacency \<Rightarrow> string \<Rightarrow> dfs_state \<Rightarrow> js_error + bool \<times> dfs_state"
  and hasCycle_for :: "adjacency \<Rightarrow> string list \<Rightarrow> dfs_state \<Rightarrow> js_error + bool \<times> dfs_state"
where
  "hasCycle graph node s =
     (if node \<notin> visited s then
        (case neighbors graph node of
           Inl err \<Rightarrow> Inl err
         | Inr ns \<Rightarrow>
             (case hasCycle_for graph ns (enter node s) of
                Inl err \<Rightarrow> Inl err
              | Inr (r, s2) \<Rightarrow> if r then Inr (True, s2) else Inr (False, leave node s2)))
      else Inr (False, leave node s))"
| "hasCycle_for graph [] s = Inr (False, s)"
| "hasCycle_for graph (neighbor # rest) s =
     (if neighbor \<notin> visited s then
        (case hasCycle graph neighbor s of
           Inl err \<Rightarrow> Inl err
         | Inr (r, s1) \<Rightarrow>
             if r then Inr (True, s1)
             else if neighbor \<in> recStack s1 then Inr (True, s1)
             else hasCycle_for graph rest s1)
      else if neighbor \<in> recStack s then Inr (True, s)
      else hasCycle_for graph rest s)"
  by pat_completeness auto

lemma hasCycle_visited_mono_dom:
  "hasCycle_hasCycle_for_dom (Inl (g, n, s)) \<Longrightarrow> hasCycle g n s = Inr (r, s') \<Longrightarrow> visited s \<subseteq> visited s'"
  "hasCycle_hasCycle_for_dom (Inr (g, ns, s)) \<Longrightarrow> hasCycle_for g ns s = Inr (r, s') \<Longrightarrow> visited s \<subseteq> visited s'"
proof (induct arbitrary: r s' and r s' rule: hasCycle_hasCycle_for.pinduct)
  case (1 graph node s)
  show ?case
  proof (cases "node \<in> visited s")
    case True
    with 1(1,3) show ?thesis by (auto simp: hasCycle.psimps leave_def)
  next
    case False
    with 1(1,3) obtain ns r2 s2 where nb: "neighbors graph node = Inr ns"
      and loop: "hasCycle_for graph ns (enter node s) = Inr (r2, s2)"
      and s': "visited s' = visited s2"
      by (auto simp: hasCycle.psimps leave_def split: sum.splits if_splits)
    from 1(2)[OF False nb loop] have "visited (enter node s) \<subseteq> visited s2" .
    then show ?thesis using s' by (auto simp: enter_def)
  qed
next
  case (2 graph s)
  then show ?case by (simp add: hasCycle_for.psimps)
next
  case (3 graph neighbor rest s)
  show ?case
  proof (cases "neighbor \<in> visited s")
    case True
    show ?thesis
    proof (cases "neighbor \<in> recStack s")
      case inStack: True
      with 3(1,5) True show ?thesis by (simp add: hasCycle_for.psimps)
    next
      case False
      with 3(1,5) True have "hasCycle_for graph rest s = Inr (r, s')"
        by (simp add: hasCycle_for.psimps)
      with 3(4) True False show ?thesis by blast
    qed
  next
    case False
    with 3(1,5) obtain r1 s1 where call: "hasCycle graph neighbor s = Inr (r1, s1)"
      by (auto simp: hasCycle_for.psimps split: sum.splits)
    from 3(2)[OF False call] have sub: "visited s \<subseteq> visited s1" .
    show ?thesis
    proof (cases "r1 \<or> neighbor \<in> recStack s1")
      case True
      with 3(1,5) False call have "s' = s1" by (auto simp: hasCycle_for.psimps split: if_splits)
      with sub show ?thesis by simp
    next
      case stop: False
      with 3(1,5) False call have rest: "hasCycle_for graph rest s1 = Inr (r, s')"
        by (auto simp: hasCycle_for.psimps)
      from stop have "\<not> r1" "neighbor \<notin> recStack s1" by auto
      from 3(3)[OF False call refl this rest] have "visited s1 \<subseteq> visited s'" .
      with sub show ?thesis by blast
    qed
  qed
qed

termination hasCycle
proof (relation "measures [
    (\<lambda>x. case x of Inl (g, n, s) \<Rightarrow> unvisitedKeys g s | Inr (g, ns, s) \<Rightarrow> unvisitedKeys g s),
    (\<lambda>x. case x of Inl (g, n, s) \<Rightarrow> 1 | Inr (g, ns, s) \<Rightarrow> (if ns = [] then 0 else 2)),
    (\<lambda>x. case x of Inl (g, n, s) \<Rightarrow> 0 | Inr (g, ns, s) \<Rightarrow> length ns)]", goal_cases)
  case 1
  then show ?case by simp
next
  case (2 graph node s ns)
  show ?case
  proof (cases "ns = []")
    case True
    with unvisitedKeys_enter_le[of graph node s] show ?thesis by auto
  next
    case False
    with 2 have "unvisitedKeys graph (enter node s) < unvisitedKeys graph s"
      by (intro unvisitedKeys_enter_less) (auto dest: neighbors_key)
    then show ?thesis by simp
  qed
next
  case (3 graph neighbor rest s)
  then show ?case by simp
next
  case (4 graph neighbor rest s b x y)
  then have "visited s \<subseteq> visited y"
    using hasCycle_visited_mono_dom(1)[of graph neighbor s x y] by simp
  then have "unvisitedKeys graph y \<le> unvisitedKeys graph s" by (rule unvisitedKeys_mono)
  then show ?case by auto
next
  case (5 graph neighbor rest s)
  then show ?case by simp
qed

declare hasCycle.simps [simp del]

text \<open>The loop \<open>for (const node of nodes) if (hasCycle(node.id)) return true\<close>.\<close>

fun hasCycle_nodes :: "adjacency \<Rightarrow> string list \<Rightarrow> dfs_state \<Rightarrow> js_error + bool \<times> dfs_state" where
  "hasCycle_nodes graph [] s = Inr (False, s)"
| "hasCycle_nodes graph (n # rest) s =
     (case hasCycle graph n s of
        Inl err \<Rightarrow> Inl err
      | Inr (r, s1) \<Rightarrow> if r then Inr (True, s1) else hasCycle_nodes graph rest s1)"

text \<open>
  \<open>detectCycle(nodes, edges)\<close>: an exception while the adjacency list is filled or during
  the search leaves the function without a result.
\<close>

definition detectCycle :: "node list \<Rightarrow> edge list \<Rightarrow> js_error + bool" where
  "detectCycle ns es =
     (case adjacencyList es of
        Inl err \<Rightarrow> Inl err
      | Inr graph \<Rightarrow>
          (case hasCycle_nodes graph (map node_id ns) emptyState of
             Inl err \<Rightarrow> Inl err
           | Inr (r, s) \<Rightarrow> Inr r))"

subsection \<open>\<open>workflow-designer.tsx\<close>\<close>

text \<open>
  \<open>detectCycle(graph)\<close> of the designer takes the adjacency list.  Its inner function
  \<open>dfs(node)\<close> tests \<open>recStack\<close> where \<open>hasCycle\<close> tests \<open>visited\<close>, and its outer loop
  runs over the keys of the adjacency list, skipping the visited ones.
\<close>

function dfs :: "adjacency \<Rightarrow> string \<Rightarrow> dfs_state \<Rightarrow> js_error + bool \<times> dfs_state"
  and dfs_for :: "adjacency \<Rightarrow> string list \<Rightarrow> dfs_state \<Rightarrow> js_error + bool \<times> dfs_state"
where
  "dfs graph node s =
     (if node \<notin> recStack s then
        (case neighbors graph node of
           Inl err \<Rightarrow> Inl err
         | Inr ns \<Rightarrow>
             (case dfs_for graph ns (enter node s) of
                Inl err \<Rightarrow> Inl err
              | Inr (r, s2) \<Rightarrow> if r then Inr (True, s2) else Inr (False, leave node s2)))
      else Inr (False, leave node s))"
| "dfs_for graph [] s = Inr (False, s)"
| "dfs_for graph (neighbor # rest) s =
     (if neighbor \<notin> visited s then
        (case dfs graph neighbor s of
           Inl err \<Rightarrow> Inl err
         | Inr (r, s1) \<Rightarrow>
             if r then Inr (True, s1)
             else if neighbor \<in> recStack s1 then Inr (True, s1)
             else dfs_for graph rest s1)
      else if neighbor \<in> recStack s then Inr (True, s)
      else dfs_for graph rest s)"
  by pat_completeness auto

lemma dfs_visited_mono_dom:
  "dfs_dfs_for_dom (Inl (g, n, s)) \<Longrightarrow> dfs g n s = Inr (r, s') \<Longrightarrow> visited s \<subseteq> visited s'"
  "dfs_dfs_for_dom (Inr (g, ns, s)) \<Longrightarrow> dfs_for g ns s = Inr (r, s') \<Longrightarrow> visited s \<subseteq> visited s'"
proof (induct arbitrary: r s' and r s' rule: dfs_dfs_for.pinduct)
  case (1 graph node s)
  show ?case
  proof (cases "node \<in> recStack s")
    case True
    with 1(1,3) show ?thesis by (auto simp: dfs.psimps leave_def)
  next
    case nrec: False
    with 1(1,3) obtain ns r2 s2 where nb: "neighbors graph node = Inr ns"
      and loop: "dfs_for graph ns (enter node s) = Inr (r2, s2)"
      and s': "visited s' = visited s2"
      by (auto simp: dfs.psimps leave_def split: sum.splits if_splits)
    from 1(2)[OF nrec nb loop] have "visited (enter node s) \<subseteq> visited s2" .
    then show ?thesis using s' by (auto simp: enter_def)
  qed
next
  case (2 graph s)
  then show ?case by (simp add: dfs_for.psimps)
next
  case (3 graph neighbor rest s)
  show ?case
  proof (cases "neighbor \<in> visited s")
    case True
    show ?thesis
    proof (cases "neighbor \<in> recStack s")
      case inStack: True
      with 3(1,5) True show ?thesis by (simp add: dfs_for.psimps)
    next
      case False
      with 3(1,5) True have "dfs_for graph rest s = Inr (r, s')"
        by (simp add: dfs_for.psimps)
      with 3(4) True False show ?thesis by blast
    qed
  next
    case False
    with 3(1,5) obtain r1 s1 where call: "dfs graph neighbor s = Inr (r1, s1)"
      by (auto simp: dfs_for.psimps split: sum.splits)
    from 3(2)[OF False call] have sub: "visited s \<subseteq> visited s1" .
    show ?thesis
    proof (cases "r1 \<or> neighbor \<in> recStack s1")
      case True
      with 3(1,5) False call have "s' = s1" by (auto simp: dfs_for.psimps split: if_splits)
      with sub show ?thesis by simp
    next
      case stop: False
      with 3(1,5) False call have rest: "dfs_for graph rest s1 = Inr (r, s')"
        by (auto simp: dfs_for.psimps)
      from stop have "\<not> r1" "neighbor \<notin> recStack s1" by auto
      from 3(3)[OF False call refl this rest] have "visited s1 \<subseteq> visited s'" .
      with sub show ?thesis by blast
    qed
  qed
qed

termination dfs
proof (relation "measures [
    (\<lambda>x. case x of Inl (g, n, s) \<Rightarrow> unvisitedKeys g (enter n s) | Inr (g, ns, s) \<Rightarrow> unvisitedKeys g s),
    (\<lambda>x. case x of Inl (g, n, s) \<Rightarrow> (if n \<in> fst ` set g then 3 else 1)
                  | Inr (g, ns, s) \<Rightarrow> (if ns = [] then 0 else 2)),
    (\<lambda>x. case x of Inl (g, n, s) \<Rightarrow> 0 | Inr (g, ns, s) \<Rightarrow> length ns)]", goal_cases)
  case 1
  then show ?case by simp
next
  case (2 graph node s ns)
  show ?case
  proof (cases "node \<in> fst ` set graph")
    case True
    then show ?thesis by auto
  next
    case False
    with 2 have "ns = []" using neighbors_key by blast
    with False show ?thesis by auto
  qed
next
  case (3 graph neighbor rest s)
  show ?case
  proof (cases "neighbor \<in> fst ` set graph")
    case True
    with 3 have "unvisitedKeys graph (enter neighbor s) < unvisitedKeys graph s"
      by (intro unvisitedKeys_enter_less)
    then show ?thesis by simp
  next
    case False
    with unvisitedKeys_enter_le[of graph neighbor s] show ?thesis by auto
  qed
next
  case (4 graph neighbor rest s b x y)
  then have "visited s \<subseteq> visited y"
    using dfs_visited_mono_dom(1)[of graph neighbor s x y] by simp
  then have "unvisitedKeys graph y \<le> unvisitedKeys graph s" by (rule unvisitedKeys_mono)
  then show ?case by auto
next
  case (5 graph neighbor rest s)
  then show ?case by simp
qed

declare dfs.simps [simp del]

text \<open>The loop \<open>for (const node in graph) if (!visited.has(node) && dfs(node)) return true\<close>.\<close>

fun dfs_keys :: "adjacency \<Rightarrow> string list \<Rightarrow> dfs_state \<Rightarrow> js_error + bool \<times> dfs_state" where
  "dfs_keys graph [] s = Inr (False, s)"
| "dfs_keys graph (k # rest) s =
     (if k \<notin> visited s then
        (case dfs graph k s of
           Inl err \<Rightarrow> Inl err
         | Inr (r, s1) \<Rightarrow> if r then Inr (True, s1) else dfs_keys graph rest s1)
      else dfs_keys graph rest s)"

definition detectCycle_designer :: "adjacency \<Rightarrow> js_error + bool" where
  "detectCycle_designer graph =
     (case dfs_keys graph (ownKeys graph) emptyState of
        Inl err \<Rightarrow> Inl err
      | Inr (r, s) \<Rightarrow> Inr r)"

section \<open>Validation\<close>

subsection \<open>The checks shared by the three validators\<close>

text \<open>
  \<open>connectedNodes\<close> is the set filled with both ends of every edge; \<open>disconnectedNodes\<close>
  keeps the nodes whose id is not in it.  \<open>startNodes\<close> keeps the nodes that no edge has as
  its target, \<open>endNodes\<close> those that no edge has as its source (\<open>find\<close> gives an edge
  object, which is truthy, or \<open>undefined\<close>).
\<close>

definition connectedNodes :: "edge list \<Rightarrow> string set" where
  "connectedNodes es = foldl (\<lambda>S e. insert (target e) (insert (source e) S)) {} es"

definition disconnectedNodes :: "node list \<Rightarrow> edge list \<Rightarrow> node list" where
  "disconnectedNodes ns es = filter (\<lambda>n. node_id n \<notin> connectedNodes es) ns"

definition startNodes :: "node list \<Rightarrow> edge list \<Rightarrow> node list" where
  "startNodes ns es = filter (\<lambda>n. find (\<lambda>e. target e = node_id n) es = None) ns"

definition endNodes :: "node list \<Rightarrow> edge list \<Rightarrow> node list" where
  "endNodes ns es = filter (\<lambda>n. find (\<lambda>e. source e = node_id n) es = None) ns"

subsection \<open>The messages\<close>

definition cycleMessage :: string where
  "cycleMessage = ''Workflow contains a cycle - this will cause infinite loops!''"

definition disconnectedMessage :: "node list \<Rightarrow> string" where
  "disconnectedMessage ds =
     ''Found '' @ showNat (length ds) @ '' disconnected node(s): '' @
     join '', '' (map node_label ds)"

definition startNodesMessage :: "nat \<Rightarrow> string" where
  "startNodesMessage k =
     ''Found '' @ showNat k @ '' start nodes. Workflows should have exactly one entry point.''"

definition endNodesMessage :: "nat \<Rightarrow> string" where
  "endNodesMessage k =
     ''Found '' @ showNat k @ '' end nodes. Consider using a single end node for clarity.''"

definition noInputMessage :: string where
  "noInputMessage = ''Workflow must have an input node as the starting point''"

definition noOutputMessage :: string where
  "noOutputMessage = ''Workflow must have an output node as the ending point''"

definition cycleMessage_designer :: string where
  "cycleMessage_designer = ''Workflow contains a cycle/loop''"

subsection \<open>\<open>validateWorkflow\<close> of \<open>WorkflowBuilder.tsx\<close>\<close>

text \<open>
  The function pushes onto \<open>errors\<close> in the order cycle, disconnected nodes, start nodes,
  and then stores \<open>errors.length === 0\<close> and \<open>errors\<close> in the component state; the
  result here is \<open>Inr errors\<close>.  \<open>detectCycle\<close> is called first; when it throws,
  nothing is pushed or stored and the result is the exception.
\<close>

definition validateWorkflow :: "workflow_definition \<Rightarrow> js_error + string list" where
  "validateWorkflow d =
     (case detectCycle (nodes d) (edges d) of
        Inl err \<Rightarrow> Inl err
      | Inr has_cycle \<Rightarrow>
          (let errors0 = [];
               errors1 = (if has_cycle then errors0 @ [cycleMessage] else errors0);
               ds = disconnectedNodes (nodes d) (edges d);
               errors2 = (if length ds > 0 then errors1 @ [disconnectedMessage ds] else errors1);
               sn = startNodes (nodes d) (edges d);
               errors3 = (if length sn > 1 then errors2 @ [startNodesMessage (length sn)]
                          else errors2)
           in Inr errors3))"

subsection \<open>\<open>validateWorkflow\<close> of \<open>workflow/[id]/page.tsx\<close>\<close>

definition validateWorkflow_page :: "workflow_definition \<Rightarrow> js_error + string list" where
  "validateWorkflow_page d =
     (case detectCycle (nodes d) (edges d) of
        Inl err \<Rightarrow> Inl err
      | Inr has_cycle \<Rightarrow>
          (let errors0 = [];
               errors1 = (if has_cycle then errors0 @ [cycleMessage] else errors0);
               ds = disconnectedNodes (nodes d) (edges d);
               errors2 = (if length ds > 0 then errors1 @ [disconnectedMessage ds] else errors1);
               sn = startNodes (nodes d) (edges d);
               errors3 = (if length sn > 1 then errors2 @ [startNodesMessage (length sn)]
                          else errors2);
               en = endNodes (nodes d) (edges d);
               errors4 = (if length en > 1 then errors3 @ [endNodesMessage (length en)]
                          else errors3)
           in Inr errors4))"

subsection \<open>\<open>validateWorkflow\<close> of \<open>workflow-designer.tsx\<close>\<close>

text \<open>
  The designer reads the arrays \<open>nodes\<close> and \<open>edges\<close> of its component state.  It fills
  the adjacency list and searches it after the other checks; an exception there leaves
  the function without a result.
\<close>

definition validateWorkflow_designer :: "node list \<Rightarrow> edge list \<Rightarrow> js_error + string list" where
  "validateWorkflow_designer ns es =
     (let errors0 = [];
          hasStartNode = list_ex (\<lambda>n. node_type n = ''input'') ns;
          errors1 = (if \<not> hasStartNode then errors0 @ [noInputMessage] else errors0);
          hasEndNode = list_ex (\<lambda>n. node_type n = ''output'') ns;
          errors2 = (if \<not> hasEndNode then errors1 @ [noOutputMessage] else errors1);
          ds = disconnectedNodes ns es;
          errors3 = (if length ds > 0 then errors2 @ [disconnectedMessage ds] else errors2)
      in case adjacencyList es of
           Inl err \<Rightarrow> Inl err
         | Inr graph \<Rightarrow>
             (case detectCycle_designer graph of
                Inl err \<Rightarrow> Inl err
              | Inr has_cycle \<Rightarrow>
                  Inr (if has_cycle then errors3 @ [cycleMessage_designer] else errors3)))"


section \<open>Editing and running\<close>

text \<open>What a handler does besides changing the graph: the calls it makes, in order.\<close>

datatype effect =
    ToastError string
  | ToastSuccess string
  | Alert string
  | Fetch string
  | RouterPush string
  | SetLoading bool
  | ConsoleLog string
  | SetTimeout nat effect

subsection \<open>Connecting two nodes on the canvas\<close>

text \<open>
  \<open>handleEdgeAdded\<close> of the builder appends the edge.  \<open>handleConnectNodes\<close> of the canvas
  receives the builder's edges as the property \<open>edges\<close> and \<open>handleEdgeAdded\<close> as
  \<open>onEdgeAdded\<close>; it refuses a connection of a node to itself and a second edge with the
  same source and target.
\<close>

definition handleEdgeAdded :: "workflow_definition \<Rightarrow> edge \<Rightarrow> workflow_definition" where
  "handleEdgeAdded d e = d\<lparr>edges := edges d @ [e]\<rparr>"

definition handleConnectNodes ::
  "workflow_definition \<Rightarrow> string \<Rightarrow> string \<Rightarrow> workflow_definition \<times> effect list" where
  "handleConnectNodes d sourceId targetId =
     (if sourceId = targetId then (d, [ToastError ''Cannot connect a node to itself''])
      else
        (case find (\<lambda>e. source e = sourceId \<and> target e = targetId) (edges d) of
           Some existingEdge \<Rightarrow> (d, [ToastError ''Connection already exists''])
         | None \<Rightarrow>
             (handleEdgeAdded d
                \<lparr>edge_id = ''edge_'' @ sourceId @ ''_'' @ targetId,
                 source = sourceId, target = targetId,
                 animated = Some True, edge_type = Some ''smoothstep''\<rparr>, [])))"

text \<open>A run of connection attempts, one after the other.\<close>

definition connectAll ::
  "workflow_definition \<Rightarrow> (string \<times> string) list \<Rightarrow> workflow_definition" where
  "connectAll d attempts = foldl (\<lambda>d' (s, t). fst (handleConnectNodes d' s t)) d attempts"

subsection \<open>Deleting a node\<close>

definition handleNodeDeleted :: "workflow_definition \<Rightarrow> string \<Rightarrow> workflow_definition" where
  "handleNodeDeleted d nodeId =
     d\<lparr>nodes := filter (\<lambda>n. node_id n \<noteq> nodeId) (nodes d),
       edges := filter (\<lambda>e. source e \<noteq> nodeId \<and> target e \<noteq> nodeId) (edges d)\<rparr>"

record designer_state =
  d_nodes :: "node list"
  d_edges :: "edge list"
  selectedNode :: "node option"
  showPropertiesPanel :: bool

definition handleDeleteNode :: "designer_state \<Rightarrow> designer_state" where
  "handleDeleteNode st =
     (case selectedNode st of
        None \<Rightarrow> st
      | Some sel \<Rightarrow>
          st\<lparr>d_nodes := filter (\<lambda>n. node_id n \<noteq> node_id sel) (d_nodes st),
             d_edges := filter (\<lambda>e. source e \<noteq> node_id sel \<and> target e \<noteq> node_id sel) (d_edges st),
             selectedNode := None,
             showPropertiesPanel := False\<rparr>)"

subsection \<open>Starting a run\<close>

text \<open>
  The page keeps the verdict of the last validation in \<open>isWorkflowValid\<close> and its
  messages in \<open>validationErrors\<close>.

  \<open>handleRun\<close> is memoised: \<open>useCallback(..., [workflow.id, toast, router])\<close>.  React hands
  out the function of an earlier render until one of these three values changes, and
  that function reads the \<open>isWorkflowValid\<close> of the render that created it.  The field
  \<open>handleRun_isWorkflowValid\<close> is the flag that the current \<open>handleRun\<close> reads.  The
  hooks behind \<open>toast\<close> and \<open>router\<close> are not part of the repository: whether one of
  them gives a new object in a render is the parameter \<open>hooksChanged\<close>.
\<close>

record page_state =
  workflow_id :: string
  workflow_def :: workflow_definition
  isWorkflowValid :: bool
  validationErrors :: "string list"
  handleRun_isWorkflowValid :: bool

definition rerender :: "bool \<Rightarrow> page_state \<Rightarrow> page_state \<Rightarrow> page_state" where
  "rerender hooksChanged before after =
     after\<lparr>handleRun_isWorkflowValid :=
       (if workflow_id after \<noteq> workflow_id before \<or> hooksChanged
        then isWorkflowValid after
        else handleRun_isWorkflowValid before)\<rparr>"

text \<open>
  \<open>handleWorkflowChange\<close> stores the new graph and validates it; the page renders again.
  When \<open>validateWorkflow\<close> throws, the exception leaves the handler before the verdict
  and the messages are stored.
\<close>

definition handleWorkflowChange :: "bool \<Rightarrow> page_state \<Rightarrow> workflow_definition \<Rightarrow> page_state" where
  "handleWorkflowChange hooksChanged st d =
     (case validateWorkflow_page d of
        Inl err \<Rightarrow> rerender hooksChanged st (st\<lparr>workflow_def := d\<rparr>)
      | Inr errors \<Rightarrow>
          rerender hooksChanged st
            (st\<lparr>workflow_def := d, isWorkflowValid := (length errors = 0),
                validationErrors := errors\<rparr>))"

text \<open>What the server answers to the request of \<open>handleRun\<close> is a parameter.\<close>

datatype run_response = ResponseOk string | ResponseNotOk string | FetchThrew string

definition handleRun :: "page_state \<Rightarrow> run_response \<Rightarrow> effect list" where
  "handleRun st response =
     (if \<not> handleRun_isWorkflowValid st
      then [ToastError ''Cannot run workflow - validation errors found!'']
      else
        Fetch (''/api/v1/workflows/'' @ workflow_id st @ ''/run'') #
        (case response of
           ResponseOk run_id \<Rightarrow>
             [ToastSuccess (''Workflow started successfully! Run ID: '' @ run_id),
              RouterPush (''/workflow-runs/'' @ run_id)]
         | ResponseNotOk msg \<Rightarrow> [ToastError (''Failed to run workflow: '' @ msg)]
         | FetchThrew msg \<Rightarrow> [ToastError (''Failed to run workflow: '' @ msg)]))"

text \<open>
  \<open>handleRunPreview\<close> of the designer validates, and alerts the messages or runs the
  mock preview; \<open>validateWorkflow\<close> is called outside its \<open>try\<close> block.
\<close>

definition newline :: string where
  "newline = [CHR 0x0A]"

definition handleRunPreview :: "designer_state \<Rightarrow> js_error + effect list" where
  "handleRunPreview st =
     (case validateWorkflow_designer (d_nodes st) (d_edges st) of
        Inl err \<Rightarrow> Inl err
      | Inr errors \<Rightarrow>
         Inr (if length errors > 0
         then [Alert (''Workflow validation errors:'' @ newline @ join newline errors)]
         else [SetLoading True,
               ConsoleLog ''Running workflow preview:'',
               SetTimeout 1000 (Alert (''Workflow executed successfully!'' @ newline @ newline @
                 ''Preview results:'' @ newline @ ''- Input processed'' @ newline @
                 ''- Agent executed'' @ newline @ ''- Action completed'' @ newline @
                 ''- Output generated'')),
               SetLoading False]))"

text \<open>The calls that start or carry out a run, as opposed to those that only report.\<close>

fun isExecutionStep :: "effect \<Rightarrow> bool" where
  "isExecutionStep (ToastError m) = False"
| "isExecutionStep (ToastSuccess m) = False"
| "isExecutionStep (Alert m) = False"
| "isExecutionStep (Fetch url) = True"
| "isExecutionStep (RouterPush url) = True"
| "isExecutionStep (SetLoading b) = True"
| "isExecutionStep (ConsoleLog m) = True"
| "isExecutionStep (SetTimeout ms e) = True"


section \<open>Graph notions of the specification\<close>

text \<open>
  The edge relation of a graph, the nodes without an incoming or an outgoing edge, and the
  well-formedness conditions of the data model: no edge from a node to itself, and both
  ends of every edge among the nodes.
\<close>

definition edgeRel :: "edge list \<Rightarrow> (string \<times> string) set" where
  "edgeRel es = (\<lambda>e. (source e, target e)) ` set es"

definition inDegree :: "edge list \<Rightarrow> string \<Rightarrow> nat" where
  "inDegree es v = length (filter (\<lambda>e. target e = v) es)"

definition outDegree :: "edge list \<Rightarrow> string \<Rightarrow> nat" where
  "outDegree es v = length (filter (\<lambda>e. source e = v) es)"

definition entryNodes :: "workflow_definition \<Rightarrow> node list" where
  "entryNodes d = filter (\<lambda>n. inDegree (edges d) (node_id n) = 0) (nodes d)"

definition terminalNodes :: "workflow_definition \<Rightarrow> node list" where
  "terminalNodes d = filter (\<lambda>n. outDegree (edges d) (node_id n) = 0) (nodes d)"

definition noSelfLoops :: "edge list \<Rightarrow> bool" where
  "noSelfLoops es = list_all (\<lambda>e. source e \<noteq> target e) es"

definition endpointsExist :: "node list \<Rightarrow> edge list \<Rightarrow> bool" where
  "endpointsExist ns es =
     list_all (\<lambda>e. source e \<in> set (map node_id ns) \<and> target e \<in> set (map node_id ns)) es"


definition edgePair :: "edge \<Rightarrow> string \<times> string" where
  "edgePair e = (source e, target e)"

text \<open>
  \<open>cycleFree E v\<close>: no directed cycle of \<open>E\<close> can be reached from \<open>v\<close>.  \<open>ownArray\<close> is
  the array that an adjacency list has under a key of its own, and \<open>adjRel\<close> the edge
  relation that the list stands for.  \<open>noPrototypeIds\<close> says that no id of a node and
  no end of an edge names a member of \<open>Object.prototype\<close>.
\<close>

definition cycleFree :: "(string \<times> string) set \<Rightarrow> string \<Rightarrow> bool" where
  "cycleFree E v = (\<not> (\<exists>c. (v, c) \<in> E\<^sup>* \<and> (c, c) \<in> E\<^sup>+))"

definition ownArray :: "adjacency \<Rightarrow> string \<Rightarrow> string list" where
  "ownArray g k = (case map_of g k of None \<Rightarrow> [] | Some ns \<Rightarrow> ns)"

definition adjRel :: "adjacency \<Rightarrow> (string \<times> string) set" where
  "adjRel g = {(u, v). v \<in> set (ownArray g u)}"

definition noPrototypeIds :: "node list \<Rightarrow> edge list \<Rightarrow> bool" where
  "noPrototypeIds ns es =
     (list_all (\<lambda>n. node_id n \<notin> set objectPrototypeNames) ns \<and>
      list_all (\<lambda>e. source e \<notin> set objectPrototypeNames \<and>
                     target e \<notin> set objectPrototypeNames) es)"

text \<open>
  The invariant of the search while it has not found a cycle: the nodes on the recursion
  stack are visited, and from a visited node that has left the stack no cycle can be
  reached.  \<open>finished\<close> says that a node is visited and off the stack; \<open>extends\<close> relates
  the sets before and after a call that returned \<open>false\<close>.
\<close>

definition dfsInv :: "adjacency \<Rightarrow> dfs_state \<Rightarrow> bool" where
  "dfsInv g s =
     (recStack s \<subseteq> visited s \<and> (\<forall>v \<in> visited s - recStack s. cycleFree (adjRel g) v))"

definition finished :: "dfs_state \<Rightarrow> string \<Rightarrow> bool" where
  "finished s v = (v \<in> visited s \<and> v \<notin> recStack s)"

definition extends :: "dfs_state \<Rightarrow> dfs_state \<Rightarrow> bool" where
  "extends s s' = (recStack s' \<subseteq> recStack s \<and> visited s \<subseteq> visited s')"

subsection \<open>Example graphs\<close>

definition mkNode :: "string \<Rightarrow> string \<Rightarrow> node" where
  "mkNode i ty = \<lparr>node_id = i, node_type = ty, node_label = i\<rparr>"

definition mkEdge :: "string \<Rightarrow> string \<Rightarrow> edge" where
  "mkEdge s t =
     \<lparr>edge_id = ''edge_'' @ s @ ''_'' @ t, source = s, target = t,
      animated = Some True, edge_type = Some ''smoothstep''\<rparr>"

text \<open>Scenario B of the specification: the edges \<open>A\<rightarrow>B\<close> and \<open>B\<rightarrow>A\<close>.\<close>

definition twoCycle :: workflow_definition where
  "twoCycle =
     \<lparr>nodes = [mkNode ''A'' ''input'', mkNode ''B'' ''output''],
      edges = [mkEdge ''A'' ''B'', mkEdge ''B'' ''A'']\<rparr>"

text \<open>An entry node \<open>S\<close> in front of that cycle.\<close>

definition entryThenCycle :: workflow_definition where
  "entryThenCycle =
     \<lparr>nodes = [mkNode ''S'' ''input'', mkNode ''A'' ''agent'', mkNode ''B'' ''output''],
      edges = [mkEdge ''S'' ''A'', mkEdge ''A'' ''B'', mkEdge ''B'' ''A'']\<rparr>"


text \<open>A single node, two nodes without an edge, one edge, and a fork \<open>A\<rightarrow>B\<close>, \<open>A\<rightarrow>C\<close>.\<close>

definition singleNode :: workflow_definition where
  "singleNode = \<lparr>nodes = [mkNode ''A'' ''input''], edges = []\<rparr>"


definition oneEdge :: workflow_definition where
  "oneEdge =
     \<lparr>nodes = [mkNode ''A'' ''agent'', mkNode ''B'' ''agent''], edges = [mkEdge ''A'' ''B'']\<rparr>"

definition fork :: workflow_definition where
  "fork =
     \<lparr>nodes = [mkNode ''A'' ''input'', mkNode ''B'' ''output'', mkNode ''C'' ''output''],
      edges = [mkEdge ''A'' ''B'', mkEdge ''A'' ''C'']\<rparr>"


definition designerOf :: "workflow_definition \<Rightarrow> designer_state" where
  "designerOf d =
     \<lparr>d_nodes = nodes d, d_edges = edges d, selectedNode = None, showPropertiesPanel = False\<rparr>"

text \<open>
  An entry node \<open>S\<close> in front of a cycle through a node with the id \<open>constructor\<close>, and
  the same cycle alone.
\<close>

definition prototypeCycle :: workflow_definition where
  "prototypeCycle =
     \<lparr>nodes = [mkNode ''S'' ''input'', mkNode ''constructor'' ''agent'', mkNode ''B'' ''output''],
      edges = [mkEdge ''S'' ''constructor'', mkEdge ''constructor'' ''B'',
               mkEdge ''B'' ''constructor'']\<rparr>"

text \<open>A graph with a dangling edge: \<open>A\<rightarrow>B\<close> and \<open>A\<rightarrow>Z\<close>, where no node \<open>Z\<close> exists.\<close>

definition danglingEdge :: workflow_definition where
  "danglingEdge =
     \<lparr>nodes = [mkNode ''A'' ''input'', mkNode ''B'' ''output''],
      edges = [mkEdge ''A'' ''B'', mkEdge ''A'' ''Z'']\<rparr>"



section \<open>The search finds every cycle it can reach\<close>


lemma cycleFree_step:
  assumes "\<And>w. (v, w) \<in> E \<Longrightarrow> cycleFree E w"
  shows "cycleFree E v"
  unfolding cycleFree_def
proof
  assume "\<exists>c. (v, c) \<in> E\<^sup>* \<and> (c, c) \<in> E\<^sup>+"
  then obtain c where vc: "(v, c) \<in> E\<^sup>*" and cc: "(c, c) \<in> E\<^sup>+" by blast
  have "\<exists>w. (v, w) \<in> E \<and> (w, c) \<in> E\<^sup>*"
  proof (cases "v = c")
    case True
    with cc show ?thesis by (auto dest: tranclD)
  next
    case False
    with vc show ?thesis by (auto elim: converse_rtranclE)
  qed
  then obtain w where "(v, w) \<in> E" "(w, c) \<in> E\<^sup>*" by blast
  with assms[of w] cc show False unfolding cycleFree_def by blast
qed

lemma extends_refl: "extends s s"
  by (simp add: extends_def)

lemma extends_trans: "extends s s1 \<Longrightarrow> extends s1 s2 \<Longrightarrow> extends s s2"
  by (auto simp: extends_def)

lemma finished_extends: "finished s v \<Longrightarrow> extends s s' \<Longrightarrow> finished s' v"
  by (auto simp: finished_def extends_def)

lemma dfsInv_enter: "dfsInv g s \<Longrightarrow> dfsInv g (enter n s)"
  by (auto simp: dfsInv_def enter_def)

lemma neighbors_ownArray: "neighbors g n = Inr ns \<Longrightarrow> ownArray g n = ns"
  by (auto simp: neighbors_def getProp_def ownArray_def split: option.splits if_splits)

lemma dfsInv_leave:
  assumes "dfsInv g s2" and "neighbors g n = Inr ns" and "\<forall>w \<in> set ns. finished s2 w"
  shows "dfsInv g (leave n s2)"
proof -
  have "cycleFree (adjRel g) n"
  proof (rule cycleFree_step)
    fix w assume "(n, w) \<in> adjRel g"
    then have "finished s2 w" using assms(2,3) by (simp add: adjRel_def neighbors_ownArray)
    then show "cycleFree (adjRel g) w" using assms(1) by (simp add: dfsInv_def finished_def)
  qed
  with assms(1) show ?thesis by (auto simp: dfsInv_def leave_def)
qed

lemma extends_enter_leave:
  "n \<notin> recStack s \<Longrightarrow> extends (enter n s) s2 \<Longrightarrow> extends s (leave n s2)"
  by (auto simp: extends_def enter_def leave_def)

lemma finished_leave: "extends (enter n s) s2 \<Longrightarrow> finished (leave n s2) n"
  by (auto simp: extends_def enter_def leave_def finished_def)

lemma hasCycle_False:
  "dfsInv g s \<Longrightarrow> n \<notin> recStack s \<Longrightarrow> hasCycle g n s = Inr (False, s')
     \<Longrightarrow> dfsInv g s' \<and> extends s s' \<and> finished s' n"
  "dfsInv g s \<Longrightarrow> hasCycle_for g ns s = Inr (False, s')
     \<Longrightarrow> dfsInv g s' \<and> extends s s' \<and> (\<forall>w \<in> set ns. finished s' w)"
proof (induction g n s and g ns s arbitrary: s' and s' rule: hasCycle_hasCycle_for.induct)
  case (1 graph node s)
  show ?case
  proof (cases "node \<in> visited s")
    case True
    with 1(3,4) have "s' = leave node s" by (simp add: hasCycle.simps)
    with 1(2,3) True show ?thesis
      by (auto simp: dfsInv_def leave_def extends_def finished_def)
  next
    case False
    with 1(4) obtain ns r s2 where nb: "neighbors graph node = Inr ns"
      and loop: "hasCycle_for graph ns (enter node s) = Inr (r, s2)"
      by (auto simp: hasCycle.simps split: sum.splits)
    with 1(4) False have r: "\<not> r" and s': "s' = leave node s2"
      by (auto simp: hasCycle.simps split: if_splits)
    from 1(1)[OF False nb dfsInv_enter[OF 1(2)], of s2] loop r
    have inv2: "dfsInv graph s2" and ext: "extends (enter node s) s2"
      and fin: "\<forall>w \<in> set ns. finished s2 w" by auto
    show ?thesis
      using dfsInv_leave[OF inv2 nb fin] extends_enter_leave[OF 1(3) ext] finished_leave[OF ext] s'
      by simp
  qed
next
  case (2 graph s)
  then show ?case by (simp add: extends_refl)
next
  case (3 graph neighbor rest s)
  show ?case
  proof (cases "neighbor \<in> visited s")
    case True
    with 3(4,5) have nrec: "neighbor \<notin> recStack s" and rest: "hasCycle_for graph rest s = Inr (False, s')"
      by (auto split: if_splits)
    from 3(3)[OF _ nrec 3(4) rest] True
    have res: "dfsInv graph s'" "extends s s'" "\<forall>w \<in> set rest. finished s' w" by auto
    from True nrec have "finished s neighbor" by (simp add: finished_def)
    with res(2) have "finished s' neighbor" by (blast intro: finished_extends)
    with res show ?thesis by simp
  next
    case False
    with 3(5) obtain r s1 where call: "hasCycle graph neighbor s = Inr (r, s1)"
      by (auto split: sum.splits)
    with 3(5) False have r: "\<not> r" and nrec1: "neighbor \<notin> recStack s1"
      and rest: "hasCycle_for graph rest s1 = Inr (False, s')"
      by (auto split: if_splits)
    from 3(4) False have nrec: "neighbor \<notin> recStack s" by (auto simp: dfsInv_def)
    from 3(1)[OF False 3(4) nrec, of s1] call r
    have inv1: "dfsInv graph s1" and ext1: "extends s s1" and fin1: "finished s1 neighbor" by auto
    from 3(2)[OF False call refl r nrec1 inv1 rest]
    have res: "dfsInv graph s'" "extends s1 s'" "\<forall>w \<in> set rest. finished s' w" by auto
    from fin1 res(2) have "finished s' neighbor" by (blast intro: finished_extends)
    with res extends_trans[OF ext1 res(2)] show ?thesis by simp
  qed
qed

lemma dfs_False:
  "dfsInv g s \<Longrightarrow> n \<notin> visited s \<Longrightarrow> dfs g n s = Inr (False, s')
     \<Longrightarrow> dfsInv g s' \<and> extends s s' \<and> finished s' n"
  "dfsInv g s \<Longrightarrow> dfs_for g ns s = Inr (False, s')
     \<Longrightarrow> dfsInv g s' \<and> extends s s' \<and> (\<forall>w \<in> set ns. finished s' w)"
proof (induction g n s and g ns s arbitrary: s' and s' rule: dfs_dfs_for.induct)
  case (1 graph node s)
  from 1(2,3) have nrec: "node \<notin> recStack s" by (auto simp: dfsInv_def)
  with 1(4) obtain ns r s2 where nb: "neighbors graph node = Inr ns"
    and loop: "dfs_for graph ns (enter node s) = Inr (r, s2)"
    by (auto simp: dfs.simps split: sum.splits)
  with 1(4) nrec have r: "\<not> r" and s': "s' = leave node s2"
    by (auto simp: dfs.simps split: if_splits)
  from 1(1)[OF nrec nb dfsInv_enter[OF 1(2)], of s2] loop r
  have inv2: "dfsInv graph s2" and ext: "extends (enter node s) s2"
    and fin: "\<forall>w \<in> set ns. finished s2 w" by auto
  show ?case
    using dfsInv_leave[OF inv2 nb fin] extends_enter_leave[OF nrec ext] finished_leave[OF ext] s'
    by simp
next
  case (2 graph s)
  then show ?case by (simp add: extends_refl)
next
  case (3 graph neighbor rest s)
  show ?case
  proof (cases "neighbor \<in> visited s")
    case True
    with 3(4,5) have nrec: "neighbor \<notin> recStack s" and rest: "dfs_for graph rest s = Inr (False, s')"
      by (auto split: if_splits)
    from 3(3)[OF _ nrec 3(4) rest] True
    have res: "dfsInv graph s'" "extends s s'" "\<forall>w \<in> set rest. finished s' w" by auto
    from True nrec have "finished s neighbor" by (simp add: finished_def)
    with res(2) have "finished s' neighbor" by (blast intro: finished_extends)
    with res show ?thesis by simp
  next
    case False
    with 3(5) obtain r s1 where call: "dfs graph neighbor s = Inr (r, s1)"
      by (auto split: sum.splits)
    with 3(5) False have r: "\<not> r" and nrec1: "neighbor \<notin> recStack s1"
      and rest: "dfs_for graph rest s1 = Inr (False, s')"
      by (auto split: if_splits)
    from 3(4) False have nrec: "neighbor \<notin> recStack s" by (auto simp: dfsInv_def)
    from 3(1)[OF False 3(4) False, of s1] call r
    have inv1: "dfsInv graph s1" and ext1: "extends s s1" and fin1: "finished s1 neighbor" by auto
    from 3(2)[OF False call refl r nrec1 inv1 rest]
    have res: "dfsInv graph s'" "extends s1 s'" "\<forall>w \<in> set rest. finished s' w" by auto
    from fin1 res(2) have "finished s' neighbor" by (blast intro: finished_extends)
    with res extends_trans[OF ext1 res(2)] show ?thesis by simp
  qed
qed

lemma hasCycle_nodes_False:
  "dfsInv g s \<Longrightarrow> recStack s = {} \<Longrightarrow> hasCycle_nodes g ns s = Inr (False, s')
     \<Longrightarrow> dfsInv g s' \<and> extends s s' \<and> (\<forall>w \<in> set ns. finished s' w)"
proof (induction ns arbitrary: s)
  case Nil
  then show ?case by (simp add: extends_refl)
next
  case (Cons n ns)
  from Cons.prems(3) obtain r s1 where call: "hasCycle g n s = Inr (r, s1)"
    by (auto split: sum.splits)
  with Cons.prems(3) have r: "\<not> r" and rest: "hasCycle_nodes g ns s1 = Inr (False, s')"
    by (auto split: if_splits)
  from Cons.prems(2) have "n \<notin> recStack s" by simp
  from hasCycle_False(1)[OF Cons.prems(1) this, of s1] call r
  have inv1: "dfsInv g s1" and ext1: "extends s s1" and fin1: "finished s1 n" by auto
  from ext1 Cons.prems(2) have "recStack s1 = {}" by (auto simp: extends_def)
  from Cons.IH[OF inv1 this rest]
  have res: "dfsInv g s'" "extends s1 s'" "\<forall>w \<in> set ns. finished s' w" by auto
  from fin1 res(2) have "finished s' n" by (blast intro: finished_extends)
  with res extends_trans[OF ext1 res(2)] show ?case by simp
qed

lemma dfs_keys_False:
  "dfsInv g s \<Longrightarrow> recStack s = {} \<Longrightarrow> dfs_keys g ks s = Inr (False, s')
     \<Longrightarrow> dfsInv g s' \<and> extends s s' \<and> (\<forall>w \<in> set ks. finished s' w)"
proof (induction ks arbitrary: s)
  case Nil
  then show ?case by (simp add: extends_refl)
next
  case (Cons k ks)
  show ?case
  proof (cases "k \<in> visited s")
    case True
    with Cons.prems(3) have rest: "dfs_keys g ks s = Inr (False, s')" by simp
    from Cons.IH[OF Cons.prems(1,2) rest]
    have res: "dfsInv g s'" "extends s s'" "\<forall>w \<in> set ks. finished s' w" by auto
    from True Cons.prems(2) have "finished s k" by (simp add: finished_def)
    with res(2) have "finished s' k" by (blast intro: finished_extends)
    with res show ?thesis by simp
  next
    case False
    with Cons.prems(3) obtain r s1 where call: "dfs g k s = Inr (r, s1)"
      by (auto split: sum.splits)
    with Cons.prems(3) False have r: "\<not> r" and rest: "dfs_keys g ks s1 = Inr (False, s')"
      by (auto split: if_splits)
    from dfs_False(1)[OF Cons.prems(1) False, of s1] call r
    have inv1: "dfsInv g s1" and ext1: "extends s s1" and fin1: "finished s1 k" by auto
    from ext1 Cons.prems(2) have "recStack s1 = {}" by (auto simp: extends_def)
    from Cons.IH[OF inv1 this rest]
    have res: "dfsInv g s'" "extends s1 s'" "\<forall>w \<in> set ks. finished s' w" by auto
    from fin1 res(2) have "finished s' k" by (blast intro: finished_extends)
    with res extends_trans[OF ext1 res(2)] show ?thesis by simp
  qed
qed

lemma dfsInv_emptyState: "dfsInv g emptyState" "recStack emptyState = {}"
  by (simp_all add: dfsInv_def emptyState_def)

subsection \<open>The adjacency list of a list of edges\<close>

lemma map_of_setProp: "map_of (setProp k v obj) = (map_of obj)(k \<mapsto> v)"
  by (induction obj) auto

lemma keys_setProp: "fst ` set (setProp k v obj) = insert k (fst ` set obj)"
  by (simp add: dom_map_of_conv_image_fst[symmetric] map_of_setProp)

lemma map_of_pushEdge:
  assumes "pushEdge g e = Inr g'"
  shows "map_of g' = (map_of g)(source e \<mapsto> ownArray g (source e) @ [target e])"
  using assms
  by (auto simp: pushEdge_def getProp_def ownArray_def map_of_setProp Let_def
      split: option.splits if_splits prop_value.splits)

lemma pushEdge_Inr:
  assumes "pushEdge g e = Inr g'"
  shows "ownArray g' u = (if u = source e then ownArray g u @ [target e] else ownArray g u)"
    and "fst ` set g' = insert (source e) (fst ` set g)"
proof -
  show "ownArray g' u = (if u = source e then ownArray g u @ [target e] else ownArray g u)"
    by (simp add: ownArray_def map_of_pushEdge[OF assms])
  have "dom (map_of g') = insert (source e) (dom (map_of g))"
    by (simp add: map_of_pushEdge[OF assms])
  then show "fst ` set g' = insert (source e) (fst ` set g)"
    by (simp add: dom_map_of_conv_image_fst)
qed

lemma pushEdges_Inr:
  "pushEdges g es = Inr g' \<Longrightarrow>
     ownArray g' u = ownArray g u @ map target (filter (\<lambda>e. source e = u) es) \<and>
     fst ` set g' = fst ` set g \<union> source ` set es"
proof (induction es arbitrary: g)
  case Nil
  then show ?case by simp
next
  case (Cons e es)
  from Cons.prems obtain g1 where one: "pushEdge g e = Inr g1" and rest: "pushEdges g1 es = Inr g'"
    by (auto split: sum.splits)
  from Cons.IH[OF rest] pushEdge_Inr(1)[OF one, of u] pushEdge_Inr(2)[OF one]
  show ?case by auto
qed

lemma ownArray_adjacencyList:
  "adjacencyList es = Inr g \<Longrightarrow> ownArray g u = map target (filter (\<lambda>e. source e = u) es)"
  using pushEdges_Inr[of "[]" es g u] by (simp add: adjacencyList_def ownArray_def)

lemma adjRel_adjacencyList: "adjacencyList es = Inr g \<Longrightarrow> adjRel g = edgeRel es"
  by (auto simp: adjRel_def edgeRel_def ownArray_adjacencyList)

lemma keys_adjacencyList: "adjacencyList es = Inr g \<Longrightarrow> fst ` set g = source ` set es"
  using pushEdges_Inr[of "[]" es g] by (simp add: adjacencyList_def)

lemma set_ownKeys: "set (ownKeys obj) = fst ` set obj"
  by (auto simp: ownKeys_def)

subsection \<open>A search that returns \<open>false\<close> has seen no cycle\<close>

lemma detectCycle_False:
  assumes "detectCycle ns es = Inr False" and "n \<in> set ns"
  shows "cycleFree (edgeRel es) (node_id n)"
proof -
  from assms(1) obtain g s' where g: "adjacencyList es = Inr g"
    and run: "hasCycle_nodes g (map node_id ns) emptyState = Inr (False, s')"
    by (auto simp: detectCycle_def split: sum.splits)
  from hasCycle_nodes_False[OF dfsInv_emptyState run] assms(2)
  have "dfsInv g s'" and "finished s' (node_id n)" by auto
  then show ?thesis
    by (simp add: dfsInv_def finished_def adjRel_adjacencyList[OF g])
qed

lemma detectCycle_designer_False:
  assumes "adjacencyList es = Inr g" and "detectCycle_designer g = Inr False"
  shows "(c, c) \<notin> (edgeRel es)\<^sup>+"
proof
  assume cyc: "(c, c) \<in> (edgeRel es)\<^sup>+"
  from assms(2) obtain s' where run: "dfs_keys g (ownKeys g) emptyState = Inr (False, s')"
    by (auto simp: detectCycle_designer_def split: sum.splits)
  from cyc obtain w where "(c, w) \<in> edgeRel es" by (auto dest: tranclD)
  then have "c \<in> source ` set es" by (auto simp: edgeRel_def)
  then have "c \<in> set (ownKeys g)" by (simp add: set_ownKeys keys_adjacencyList[OF assms(1)])
  with dfs_keys_False[OF dfsInv_emptyState run]
  have "dfsInv g s'" and "finished s' c" by auto
  then have "cycleFree (edgeRel es) c"
    by (simp add: dfsInv_def finished_def adjRel_adjacencyList[OF assms(1)])
  with cyc show False by (auto simp: cycleFree_def)
qed

subsection \<open>Without prototype names the search returns\<close>

lemma pushEdge_returns:
  "source e \<notin> set objectPrototypeNames \<Longrightarrow> \<exists>g'. pushEdge g e = Inr g'"
  by (auto simp: pushEdge_def getProp_def map_of_setProp Let_def split: option.splits)

lemma pushEdges_returns:
  "list_all (\<lambda>e. source e \<notin> set objectPrototypeNames) es \<Longrightarrow> \<exists>g'. pushEdges g es = Inr g'"
proof (induction es arbitrary: g)
  case Nil
  then show ?case by simp
next
  case (Cons e es)
  then obtain g1 where "pushEdge g e = Inr g1" using pushEdge_returns[of e g] by auto
  with Cons show ?case by simp
qed

lemma neighbors_returns:
  "n \<notin> set objectPrototypeNames \<Longrightarrow> neighbors g n = Inr (ownArray g n)"
  by (simp add: neighbors_def getProp_def ownArray_def split: option.splits)

lemma hasCycle_returns:
  "Range (adjRel g) \<inter> set objectPrototypeNames = {} \<Longrightarrow> n \<notin> set objectPrototypeNames
     \<Longrightarrow> \<exists>r. hasCycle g n s = Inr r"
  "Range (adjRel g) \<inter> set objectPrototypeNames = {} \<Longrightarrow> set ns \<inter> set objectPrototypeNames = {}
     \<Longrightarrow> \<exists>r. hasCycle_for g ns s = Inr r"
proof (induction g n s and g ns s rule: hasCycle_hasCycle_for.induct)
  case (1 graph node s)
  show ?case
  proof (cases "node \<in> visited s")
    case True
    then show ?thesis by (auto simp: hasCycle.simps)
  next
    case False
    note nb = neighbors_returns[OF 1(3), of graph]
    have "set (ownArray graph node) \<subseteq> Range (adjRel graph)"
      by (auto simp: adjRel_def)
    with 1(2) have "set (ownArray graph node) \<inter> set objectPrototypeNames = {}" by blast
    from 1(1)[OF False nb 1(2) this] obtain r where "hasCycle_for graph (ownArray graph node) (enter node s) = Inr r"
      by blast
    with False nb show ?thesis by (cases r) (auto simp: hasCycle.simps)
  qed
next
  case (2 graph s)
  then show ?case by auto
next
  case (3 graph neighbor rest s)
  from 3(5) have safe: "neighbor \<notin> set objectPrototypeNames"
    and rest: "set rest \<inter> set objectPrototypeNames = {}" by auto
  show ?case
  proof (cases "neighbor \<in> visited s")
    case True
    with 3(3)[OF _ _ 3(4) rest] show ?thesis by (cases "neighbor \<in> recStack s") auto
  next
    case False
    from 3(1)[OF False 3(4) safe] obtain r s1 where call: "hasCycle graph neighbor s = Inr (r, s1)"
      by (metis surj_pair)
    show ?thesis
    proof (cases "r \<or> neighbor \<in> recStack s1")
      case True
      with False call show ?thesis by auto
    next
      case go: False
      with 3(2)[OF False call refl _ _ 3(4) rest] False call show ?thesis by auto
    qed
  qed
qed

lemma dfs_returns:
  "Range (adjRel g) \<inter> set objectPrototypeNames = {} \<Longrightarrow> n \<notin> set objectPrototypeNames
     \<Longrightarrow> \<exists>r. dfs g n s = Inr r"
  "Range (adjRel g) \<inter> set objectPrototypeNames = {} \<Longrightarrow> set ns \<inter> set objectPrototypeNames = {}
     \<Longrightarrow> \<exists>r. dfs_for g ns s = Inr r"
proof (induction g n s and g ns s rule: dfs_dfs_for.induct)
  case (1 graph node s)
  show ?case
  proof (cases "node \<in> recStack s")
    case True
    then show ?thesis by (auto simp: dfs.simps)
  next
    case False
    note nb = neighbors_returns[OF 1(3), of graph]
    have "set (ownArray graph node) \<subseteq> Range (adjRel graph)"
      by (auto simp: adjRel_def)
    with 1(2) have "set (ownArray graph node) \<inter> set objectPrototypeNames = {}" by blast
    from 1(1)[OF False nb 1(2) this] obtain r where "dfs_for graph (ownArray graph node) (enter node s) = Inr r"
      by blast
    with False nb show ?thesis by (cases r) (auto simp: dfs.simps)
  qed
next
  case (2 graph s)
  then show ?case by auto
next
  case (3 graph neighbor rest s)
  from 3(5) have safe: "neighbor \<notin> set objectPrototypeNames"
    and rest: "set rest \<inter> set objectPrototypeNames = {}" by auto
  show ?case
  proof (cases "neighbor \<in> visited s")
    case True
    with 3(3)[OF _ _ 3(4) rest] show ?thesis by (cases "neighbor \<in> recStack s") auto
  next
    case False
    from 3(1)[OF False 3(4) safe] obtain r s1 where call: "dfs graph neighbor s = Inr (r, s1)"
      by (metis surj_pair)
    show ?thesis
    proof (cases "r \<or> neighbor \<in> recStack s1")
      case True
      with False call show ?thesis by auto
    next
      case go: False
      with 3(2)[OF False call refl _ _ 3(4) rest] False call show ?thesis by auto
    qed
  qed
qed

lemma hasCycle_nodes_returns:
  "Range (adjRel g) \<inter> set objectPrototypeNames = {} \<Longrightarrow> set ns \<inter> set objectPrototypeNames = {}
     \<Longrightarrow> \<exists>r. hasCycle_nodes g ns s = Inr r"
proof (induction ns arbitrary: s)
  case Nil
  then show ?case by auto
next
  case (Cons n ns)
  then obtain r s1 where "hasCycle g n s = Inr (r, s1)"
    using hasCycle_returns(1)[of g n s] by (metis Int_insert_left insert_not_empty list.simps(15) surj_pair)
  with Cons show ?case by (cases r) auto
qed

lemma dfs_keys_returns:
  "Range (adjRel g) \<inter> set objectPrototypeNames = {} \<Longrightarrow> set ks \<inter> set objectPrototypeNames = {}
     \<Longrightarrow> \<exists>r. dfs_keys g ks s = Inr r"
proof (induction ks arbitrary: s)
  case Nil
  then show ?case by auto
next
  case (Cons k ks)
  then obtain r s1 where "dfs g k s = Inr (r, s1)"
    using dfs_returns(1)[of g k s] by (metis Int_insert_left insert_not_empty list.simps(15) surj_pair)
  with Cons show ?case by (cases r) auto
qed

lemma noPrototypeIds_edgeRel:
  "noPrototypeIds ns es \<Longrightarrow>
     Range (edgeRel es) \<inter> set objectPrototypeNames = {} \<and>
     source ` set es \<inter> set objectPrototypeNames = {} \<and>
     set (map node_id ns) \<inter> set objectPrototypeNames = {}"
  by (auto simp: noPrototypeIds_def edgeRel_def list_all_iff)

lemma adjacencyList_returns:
  "noPrototypeIds ns es \<Longrightarrow> \<exists>g. adjacencyList es = Inr g"
  unfolding adjacencyList_def
  by (rule pushEdges_returns) (auto simp: noPrototypeIds_def list_all_iff)

lemma detectCycle_returns:
  assumes "noPrototypeIds ns es"
  shows "\<exists>b. detectCycle ns es = Inr b"
proof -
  from adjacencyList_returns[OF assms] obtain g where g: "adjacencyList es = Inr g" by blast
  from noPrototypeIds_edgeRel[OF assms] adjRel_adjacencyList[OF g]
  have "Range (adjRel g) \<inter> set objectPrototypeNames = {}"
    and "set (map node_id ns) \<inter> set objectPrototypeNames = {}" by auto
  from hasCycle_nodes_returns[OF this, of emptyState]
  obtain r s where "hasCycle_nodes g (map node_id ns) emptyState = Inr (r, s)" by (metis surj_pair)
  with g show ?thesis by (simp add: detectCycle_def)
qed

lemma detectCycle_designer_returns:
  assumes "noPrototypeIds ns es" and g: "adjacencyList es = Inr g"
  shows "\<exists>b. detectCycle_designer g = Inr b"
proof -
  from noPrototypeIds_edgeRel[OF assms(1)] adjRel_adjacencyList[OF g] keys_adjacencyList[OF g]
  have "Range (adjRel g) \<inter> set objectPrototypeNames = {}"
    and "set (ownKeys g) \<inter> set objectPrototypeNames = {}" by (auto simp: set_ownKeys)
  from dfs_keys_returns[OF this, of emptyState]
  obtain r s where "dfs_keys g (ownKeys g) emptyState = Inr (r, s)" by (metis surj_pair)
  then show ?thesis by (simp add: detectCycle_designer_def)
qed

subsection \<open>A reachable cycle is never passed over\<close>

lemma detectCycle_complete:
  assumes "n \<in> set ns" and "(node_id n, c) \<in> (edgeRel es)\<^sup>*" and "(c, c) \<in> (edgeRel es)\<^sup>+"
  shows "detectCycle ns es \<noteq> Inr False"
    and "noPrototypeIds ns es \<Longrightarrow> detectCycle ns es = Inr True"
proof -
  show no: "detectCycle ns es \<noteq> Inr False"
  proof
    assume "detectCycle ns es = Inr False"
    from detectCycle_False[OF this assms(1)] assms(2,3) show False
      by (auto simp: cycleFree_def)
  qed
  show "detectCycle ns es = Inr True" if "noPrototypeIds ns es"
    using detectCycle_returns[OF that] no by (metis (full_types))
qed

lemma detectCycle_designer_complete:
  assumes "(c, c) \<in> (edgeRel es)\<^sup>+" and "adjacencyList es = Inr g"
  shows "detectCycle_designer g \<noteq> Inr False"
    and "noPrototypeIds ns es \<Longrightarrow> detectCycle_designer g = Inr True"
proof -
  show no: "detectCycle_designer g \<noteq> Inr False"
    using detectCycle_designer_False[OF assms(2), of c] assms(1) by blast
  show "detectCycle_designer g = Inr True" if "noPrototypeIds ns es"
    using detectCycle_designer_returns[OF that assms(2)] no by (metis (full_types))
qed


section \<open>The messages differ\<close>

lemma isDigit_digitChar: "d < 10 \<Longrightarrow> isDigit (digitChar d)"
proof -
  have "list_all isDigit ''0123456789''" by (simp add: isDigit_def)
  then show "d < 10 \<Longrightarrow> isDigit (digitChar d)"
    by (simp add: list_all_length digitChar_def)
qed


lemma showNat_digits: "list_all isDigit (showNat n)"
proof (induction n rule: showNat.induct)
  case (1 n)
  show ?case
  proof (cases "n < 10")
    case True
    then show ?thesis by (subst showNat.simps) (simp add: isDigit_digitChar)
  next
    case False
    with 1 show ?thesis by (subst showNat.simps) (simp add: isDigit_digitChar)
  qed
qed

lemma digits_then_other:
  assumes "list_all isDigit xs" "list_all isDigit ys" "\<not> isDigit c" "\<not> isDigit d"
    and "xs @ c # r = ys @ d # r'"
  shows "xs = ys \<and> c = d \<and> r = r'"
  using assms
proof (induction xs arbitrary: ys)
  case Nil
  then show ?case by (cases ys) auto
next
  case (Cons x xs)
  then show ?case by (cases ys) auto
qed

lemma not_isDigit_space: "\<not> isDigit CHR '' ''"
  by (simp add: isDigit_def)

lemma found_message_eq:
  assumes "showNat a @ CHR '' '' # r = showNat b @ CHR '' '' # r'"
  shows "r = r'"
  using assms digits_then_other[OF showNat_digits[of a] showNat_digits[of b] not_isDigit_space not_isDigit_space, of r r']
  by simp

lemma messages_distinct:
  "startNodesMessage k \<noteq> cycleMessage"
  "startNodesMessage k \<noteq> disconnectedMessage ds"
  "startNodesMessage k \<noteq> endNodesMessage j"
  "endNodesMessage k \<noteq> cycleMessage"
  "endNodesMessage k \<noteq> disconnectedMessage ds"
  "disconnectedMessage ds \<noteq> cycleMessage"
  "disconnectedMessage ds \<noteq> noInputMessage"
  "disconnectedMessage ds \<noteq> noOutputMessage"
  "disconnectedMessage ds \<noteq> cycleMessage_designer"
  "noOutputMessage \<noteq> noInputMessage"
  "noOutputMessage \<noteq> cycleMessage_designer"
  "noInputMessage \<noteq> cycleMessage_designer"
  by (auto simp: startNodesMessage_def cycleMessage_def disconnectedMessage_def endNodesMessage_def
      noInputMessage_def noOutputMessage_def cycleMessage_designer_def dest: found_message_eq)


section \<open>Editing keeps the graph in shape\<close>

lemma find_None_iff_set: "(find P xs = None) = (\<not> (\<exists>x\<in>set xs. P x))"
  by (induction xs) auto

lemma handleConnectNodes_edges:
  "edges (fst (handleConnectNodes d s t)) = edges d \<or>
   (s \<noteq> t \<and> (s, t) \<notin> edgePair ` set (edges d) \<and>
    edges (fst (handleConnectNodes d s t)) = edges d @ [mkEdge s t])"
  by (auto simp: handleConnectNodes_def handleEdgeAdded_def edgePair_def mkEdge_def
      find_None_iff_set split: option.splits)

lemma handleConnectNodes_nodes: "nodes (fst (handleConnectNodes d s t)) = nodes d"
  by (auto simp: handleConnectNodes_def handleEdgeAdded_def split: option.splits)

lemma edgePair_mkEdge: "edgePair (mkEdge s t) = (s, t)"
  by (simp add: edgePair_def mkEdge_def)

lemma handleConnectNodes_distinct:
  assumes "distinct (map edgePair (edges d))"
  shows "distinct (map edgePair (edges (fst (handleConnectNodes d s t))))"
  using handleConnectNodes_edges[of d s t] assms by (auto simp: edgePair_mkEdge)

lemma handleConnectNodes_noSelfLoops:
  assumes "noSelfLoops (edges d)"
  shows "noSelfLoops (edges (fst (handleConnectNodes d s t)))"
  using handleConnectNodes_edges[of d s t] assms by (auto simp: noSelfLoops_def mkEdge_def)

lemma connectAll_distinct:
  "distinct (map edgePair (edges d)) \<Longrightarrow> distinct (map edgePair (edges (connectAll d as)))"
  unfolding connectAll_def
proof (induction as arbitrary: d)
  case Nil
  then show ?case by simp
next
  case (Cons a as)
  obtain s t where a: "a = (s, t)" by (cases a)
  show ?case using Cons.IH[OF handleConnectNodes_distinct[OF Cons.prems, of s t]] a by simp
qed

lemma connectAll_noSelfLoops:
  "noSelfLoops (edges d) \<Longrightarrow> noSelfLoops (edges (connectAll d as))"
  unfolding connectAll_def
proof (induction as arbitrary: d)
  case Nil
  then show ?case by simp
next
  case (Cons a as)
  obtain s t where a: "a = (s, t)" by (cases a)
  show ?case using Cons.IH[OF handleConnectNodes_noSelfLoops[OF Cons.prems, of s t]] a by simp
qed

section \<open>What the validators report\<close>

lemma startNodes_entryNodes: "startNodes (nodes d) (edges d) = entryNodes d"
  by (simp add: startNodes_def entryNodes_def inDegree_def find_None_iff_set filter_empty_conv)

lemma endNodes_terminalNodes: "endNodes (nodes d) (edges d) = terminalNodes d"
  by (simp add: endNodes_def terminalNodes_def outDegree_def find_None_iff_set filter_empty_conv)



lemma validateWorkflow_Inr:
  "validateWorkflow d = Inr errs \<longleftrightarrow>
     (\<exists>c. detectCycle (nodes d) (edges d) = Inr c \<and>
          errs =
            (if c then [cycleMessage] else []) @
            (if disconnectedNodes (nodes d) (edges d) \<noteq> []
             then [disconnectedMessage (disconnectedNodes (nodes d) (edges d))] else []) @
            (if length (entryNodes d) > 1 then [startNodesMessage (length (entryNodes d))] else []))"
  by (auto simp: validateWorkflow_def Let_def startNodes_entryNodes split: sum.splits)

lemma validateWorkflow_page_validateWorkflow:
  "validateWorkflow_page d =
     (case validateWorkflow d of
        Inl err \<Rightarrow> Inl err
      | Inr errs \<Rightarrow>
          Inr (errs @ (if length (terminalNodes d) > 1
                       then [endNodesMessage (length (terminalNodes d))] else [])))"
  by (simp add: validateWorkflow_page_def validateWorkflow_def Let_def endNodes_terminalNodes
      split: sum.splits)

lemma validateWorkflow_page_Inr:
  "validateWorkflow_page d = Inr errs \<longleftrightarrow>
     (\<exists>errs0. validateWorkflow d = Inr errs0 \<and>
          errs = errs0 @ (if length (terminalNodes d) > 1
                          then [endNodesMessage (length (terminalNodes d))] else []))"
  by (auto simp: validateWorkflow_page_validateWorkflow split: sum.splits)

lemma validateWorkflow_designer_Inr:
  "validateWorkflow_designer ns es = Inr errs \<longleftrightarrow>
     (\<exists>g c. adjacencyList es = Inr g \<and> detectCycle_designer g = Inr c \<and>
          errs =
            (if list_ex (\<lambda>n. node_type n = ''input'') ns then [] else [noInputMessage]) @
            (if list_ex (\<lambda>n. node_type n = ''output'') ns then [] else [noOutputMessage]) @
            (if disconnectedNodes ns es \<noteq> [] then [disconnectedMessage (disconnectedNodes ns es)]
             else []) @
            (if c then [cycleMessage_designer] else []))"
  by (auto simp: validateWorkflow_designer_def Let_def split: sum.splits)

lemma validateWorkflow_of_detectCycle:
  assumes "detectCycle (nodes d) (edges d) = Inr c"
  shows "validateWorkflow d =
           Inr ((if c then [cycleMessage] else []) @
                (if disconnectedNodes (nodes d) (edges d) \<noteq> []
                 then [disconnectedMessage (disconnectedNodes (nodes d) (edges d))] else []) @
                (if length (entryNodes d) > 1 then [startNodesMessage (length (entryNodes d))]
                 else []))"
  using assms by (simp add: validateWorkflow_Inr)

lemma validateWorkflow_designer_of_detectCycle:
  assumes "adjacencyList es = Inr g" and "detectCycle_designer g = Inr c"
  shows "validateWorkflow_designer ns es =
           Inr ((if list_ex (\<lambda>n. node_type n = ''input'') ns then [] else [noInputMessage]) @
                (if list_ex (\<lambda>n. node_type n = ''output'') ns then [] else [noOutputMessage]) @
                (if disconnectedNodes ns es \<noteq> []
                 then [disconnectedMessage (disconnectedNodes ns es)] else []) @
                (if c then [cycleMessage_designer] else []))"
  using assms by (simp add: validateWorkflow_designer_Inr)

lemma validators_return:
  assumes "noPrototypeIds (nodes d) (edges d)"
  shows "\<exists>errs. validateWorkflow d = Inr errs"
    and "\<exists>errs. validateWorkflow_page d = Inr errs"
    and "\<exists>errs. validateWorkflow_designer (nodes d) (edges d) = Inr errs"
proof -
  from detectCycle_returns[OF assms] show "\<exists>errs. validateWorkflow d = Inr errs"
    by (auto simp: validateWorkflow_Inr)
  then show "\<exists>errs. validateWorkflow_page d = Inr errs"
    by (auto simp: validateWorkflow_page_Inr)
  from adjacencyList_returns[OF assms] obtain g where g: "adjacencyList (edges d) = Inr g" by blast
  from detectCycle_designer_returns[OF assms g] g
  show "\<exists>errs. validateWorkflow_designer (nodes d) (edges d) = Inr errs"
    by (auto simp: validateWorkflow_designer_Inr)
qed

subsection \<open>The example graphs, evaluated\<close>

lemma validate_twoCycle:
  "validateWorkflow twoCycle = Inr [cycleMessage]"
  "validateWorkflow_page twoCycle = Inr [cycleMessage]"
  "validateWorkflow_designer (nodes twoCycle) (edges twoCycle) = Inr [cycleMessage_designer]"
  by code_simp+


lemma validate_fork:
  "validateWorkflow fork = Inr []"
  "validateWorkflow_page fork = Inr [endNodesMessage 2]"
  by code_simp+

lemma validate_oneEdge:
  "validateWorkflow oneEdge = Inr []"
  "validateWorkflow_page oneEdge = Inr []"
  "validateWorkflow_designer (nodes oneEdge) (edges oneEdge) = Inr [noInputMessage, noOutputMessage]"
  by code_simp+




lemma validate_entryThenCycle:
  "validateWorkflow entryThenCycle = Inr [cycleMessage]"
  "validateWorkflow_page entryThenCycle = Inr [cycleMessage]"
  "validateWorkflow_designer (nodes entryThenCycle) (edges entryThenCycle)
     = Inr [cycleMessage_designer]"
  by code_simp+

lemma validate_prototypeCycle:
  "adjacencyList (edges prototypeCycle) = Inl TypeError"
  "detectCycle (nodes prototypeCycle) (edges prototypeCycle) = Inl TypeError"
  "validateWorkflow prototypeCycle = Inl TypeError"
  "validateWorkflow_page prototypeCycle = Inl TypeError"
  "validateWorkflow_designer (nodes prototypeCycle) (edges prototypeCycle) = Inl TypeError"
  by code_simp+

section \<open>The claims about the edits\<close>

text \<open>
  C9, as stated, fails in its last part: the deletion removes the edges of the deleted
  node and no others.  In the graph with the edges \<open>A\<rightarrow>B\<close> and \<open>A\<rightarrow>Z\<close>, where no node \<open>Z\<close>
  exists, deleting \<open>B\<close> leaves the edge \<open>A\<rightarrow>Z\<close>, which still refers to a node that is
  not in the node set; the same holds for the designer with \<open>B\<close> selected.
\<close>

theorem delete_keeps_dangling_edge:
  "nodes (handleNodeDeleted danglingEdge ''B'') = [mkNode ''A'' ''input''] \<and>
   edges (handleNodeDeleted danglingEdge ''B'') = [mkEdge ''A'' ''Z''] \<and>
   \<not> endpointsExist (nodes (handleNodeDeleted danglingEdge ''B''))
         (edges (handleNodeDeleted danglingEdge ''B'')) \<and>
   d_edges (handleDeleteNode
      ((designerOf danglingEdge)\<lparr>selectedNode := Some (mkNode ''B'' ''output'')\<rparr>))
     = [mkEdge ''A'' ''Z''] \<and>
   \<not> endpointsExist
       (d_nodes (handleDeleteNode
          ((designerOf danglingEdge)\<lparr>selectedNode := Some (mkNode ''B'' ''output'')\<rparr>)))
       (d_edges (handleDeleteNode
          ((designerOf danglingEdge)\<lparr>selectedNode := Some (mkNode ''B'' ''output'')\<rparr>)))"
  by (simp add: handleNodeDeleted_def handleDeleteNode_def danglingEdge_def designerOf_def
      mkNode_def mkEdge_def endpointsExist_def)

text \<open>
  C9, amended.  Deleting a node removes the node and every edge that has it as source or
  target, and keeps all other nodes and edges as they were, in their order; so no edge
  refers to the deleted node afterwards, and a graph whose edges all end at nodes of the
  graph is still such a graph after the deletion.  This holds for \<open>handleNodeDeleted\<close> of
  \<open>WorkflowBuilder.tsx\<close> and \<open>workflow/[id]/page.tsx\<close> and for \<open>handleDeleteNode\<close> of the
  designer, which deletes the selected node.
\<close>

theorem delete_node_removes_incident_edges:
  "list_all (\<lambda>e. source e \<noteq> v \<and> target e \<noteq> v) (edges (handleNodeDeleted d v)) \<and>
   list_all (\<lambda>n. node_id n \<noteq> v) (nodes (handleNodeDeleted d v)) \<and>
   edges (handleNodeDeleted d v) = filter (\<lambda>e. source e \<noteq> v \<and> target e \<noteq> v) (edges d) \<and>
   nodes (handleNodeDeleted d v) = filter (\<lambda>n. node_id n \<noteq> v) (nodes d) \<and>
   (endpointsExist (nodes d) (edges d) \<longrightarrow>
      endpointsExist (nodes (handleNodeDeleted d v)) (edges (handleNodeDeleted d v))) \<and>
   (selectedNode st = Some sel \<longrightarrow>
      d_edges (handleDeleteNode st) =
        filter (\<lambda>e. source e \<noteq> node_id sel \<and> target e \<noteq> node_id sel) (d_edges st) \<and>
      d_nodes (handleDeleteNode st) = filter (\<lambda>n. node_id n \<noteq> node_id sel) (d_nodes st) \<and>
      (endpointsExist (d_nodes st) (d_edges st) \<longrightarrow>
         endpointsExist (d_nodes (handleDeleteNode st)) (d_edges (handleDeleteNode st)))) \<and>
   (selectedNode st = None \<longrightarrow> handleDeleteNode st = st)"
  by (auto simp: handleNodeDeleted_def handleDeleteNode_def endpointsExist_def list_all_iff)

theorem delete_node_removes_incident_edges_witness:
  "endpointsExist (nodes entryThenCycle) (edges entryThenCycle) \<and>
   edges (handleNodeDeleted entryThenCycle ''S'') = [mkEdge ''A'' ''B'', mkEdge ''B'' ''A''] \<and>
   nodes (handleNodeDeleted entryThenCycle ''S'') = [mkNode ''A'' ''agent'', mkNode ''B'' ''output''] \<and>
   endpointsExist (nodes (handleNodeDeleted entryThenCycle ''S''))
     (edges (handleNodeDeleted entryThenCycle ''S'')) \<and>
   d_edges (handleDeleteNode
      ((designerOf entryThenCycle)\<lparr>selectedNode := Some (mkNode ''S'' ''input'')\<rparr>))
     = [mkEdge ''A'' ''B'', mkEdge ''B'' ''A''] \<and>
   endpointsExist
     (d_nodes (handleDeleteNode
        ((designerOf entryThenCycle)\<lparr>selectedNode := Some (mkNode ''S'' ''input'')\<rparr>)))
     (d_edges (handleDeleteNode
        ((designerOf entryThenCycle)\<lparr>selectedNode := Some (mkNode ''S'' ''input'')\<rparr>)))"
proof -
  let ?st = "(designerOf entryThenCycle)\<lparr>selectedNode := Some (mkNode ''S'' ''input'')\<rparr>"
  have wf: "endpointsExist (nodes entryThenCycle) (edges entryThenCycle)"
    by (simp add: endpointsExist_def entryThenCycle_def mkNode_def mkEdge_def)
  then have wf': "endpointsExist (d_nodes ?st) (d_edges ?st)"
    by (simp add: designerOf_def)
  have sel: "selectedNode ?st = Some (mkNode ''S'' ''input'')" by simp
  have es: "edges (handleNodeDeleted entryThenCycle ''S'') = [mkEdge ''A'' ''B'', mkEdge ''B'' ''A'']"
    by (simp add: handleNodeDeleted_def entryThenCycle_def mkEdge_def)
  have ns: "nodes (handleNodeDeleted entryThenCycle ''S'')
              = [mkNode ''A'' ''agent'', mkNode ''B'' ''output'']"
    by (simp add: handleNodeDeleted_def entryThenCycle_def mkNode_def)
  have es': "d_edges (handleDeleteNode ?st) = [mkEdge ''A'' ''B'', mkEdge ''B'' ''A'']"
    by (simp add: handleDeleteNode_def designerOf_def entryThenCycle_def mkEdge_def mkNode_def)
  from wf delete_node_removes_incident_edges[of "''S''" entryThenCycle]
  have post: "endpointsExist (nodes (handleNodeDeleted entryThenCycle ''S''))
          (edges (handleNodeDeleted entryThenCycle ''S''))"
    by blast
  from wf' sel delete_node_removes_incident_edges[of _ _ ?st "mkNode ''S'' ''input''"]
  have "endpointsExist (d_nodes (handleDeleteNode ?st)) (d_edges (handleDeleteNode ?st))"
    by blast
  with wf es ns es' post show ?thesis by blast
qed

text \<open>
  C10.  \<open>handleConnectNodes\<close> leaves the graph unchanged when an edge with the same source
  and target exists already; it keeps the (source, target) pairs of the edges distinct,
  and so does every run of connection attempts; in particular a graph whose edges all
  came from the handler never has two edges with the same pair.
\<close>

theorem connect_rejects_existing_pair:
  "((\<exists>e \<in> set (edges d). source e = s \<and> target e = t) \<longrightarrow>
      fst (handleConnectNodes d s t) = d \<and>
      (s \<noteq> t \<longrightarrow> snd (handleConnectNodes d s t) = [ToastError ''Connection already exists''])) \<and>
   (distinct (map edgePair (edges d)) \<longrightarrow>
      distinct (map edgePair (edges (fst (handleConnectNodes d s t))))) \<and>
   (distinct (map edgePair (edges d)) \<longrightarrow>
      distinct (map edgePair (edges (connectAll d attempts)))) \<and>
   distinct (map edgePair (edges (connectAll (d\<lparr>edges := []\<rparr>) attempts)))"
proof -
  have "distinct (map edgePair (edges (connectAll (d\<lparr>edges := []\<rparr>) attempts)))"
    by (rule connectAll_distinct) simp
  then show ?thesis
    using handleConnectNodes_distinct[of d s t] connectAll_distinct[of d attempts]
    by (auto simp: handleConnectNodes_def find_None_iff_set split: option.splits)
qed

theorem connect_rejects_existing_pair_witness:
  "(\<exists>e \<in> set (edges oneEdge). source e = ''A'' \<and> target e = ''B'') \<and>
   distinct (map edgePair (edges oneEdge)) \<and>
   fst (handleConnectNodes oneEdge ''A'' ''B'') = oneEdge \<and>
   snd (handleConnectNodes oneEdge ''A'' ''B'') = [ToastError ''Connection already exists''] \<and>
   distinct (map edgePair (edges (fst (handleConnectNodes oneEdge ''B'' ''A'')))) \<and>
   edges (fst (handleConnectNodes oneEdge ''B'' ''A'')) = [mkEdge ''A'' ''B'', mkEdge ''B'' ''A'']"
proof -
  have ex: "\<exists>e \<in> set (edges oneEdge). source e = ''A'' \<and> target e = ''B''"
    by (simp add: oneEdge_def mkEdge_def)
  have dist: "distinct (map edgePair (edges oneEdge))"
    by (simp add: oneEdge_def)
  have neq: "(''A''::string) \<noteq> ''B''" by simp
  have added: "edges (fst (handleConnectNodes oneEdge ''B'' ''A'')) = [mkEdge ''A'' ''B'', mkEdge ''B'' ''A'']"
    by (simp add: handleConnectNodes_def handleEdgeAdded_def mkEdge_def oneEdge_def)
  from ex neq connect_rejects_existing_pair[of oneEdge "''A''" "''B''"]
  have same: "fst (handleConnectNodes oneEdge ''A'' ''B'') = oneEdge"
    and toast: "snd (handleConnectNodes oneEdge ''A'' ''B'') = [ToastError ''Connection already exists'']"
    by blast+
  from dist connect_rejects_existing_pair[of oneEdge "''B''" "''A''"]
  have "distinct (map edgePair (edges (fst (handleConnectNodes oneEdge ''B'' ''A''))))"
    by blast
  with ex dist same toast added show ?thesis by blast
qed

text \<open>
  C7, as the specification states it, fails: \<open>handleConnectNodes\<close> does not look at the
  nodes.  On the graph with the single node \<open>A\<close> it accepts the connection from \<open>A\<close> to
  \<open>Z\<close>, and the resulting graph, with an edge to a node that does not exist, passes
  \<open>validateWorkflow\<close>.
\<close>

theorem connect_accepts_missing_node:
  "nodes singleNode = [mkNode ''A'' ''input''] \<and>
   handleConnectNodes singleNode ''A'' ''Z'' = (singleNode\<lparr>edges := [mkEdge ''A'' ''Z'']\<rparr>, []) \<and>
   \<not> endpointsExist (nodes singleNode) [mkEdge ''A'' ''Z''] \<and>
   validateWorkflow (singleNode\<lparr>edges := [mkEdge ''A'' ''Z'']\<rparr>) = Inr []"
proof -
  have "validateWorkflow (singleNode\<lparr>edges := [mkEdge ''A'' ''Z'']\<rparr>) = Inr []"
    by code_simp
  then show ?thesis
    by (simp add: singleNode_def handleConnectNodes_def handleEdgeAdded_def mkEdge_def
        mkNode_def endpointsExist_def)
qed

text \<open>
  C7, amended.  \<open>handleConnectNodes\<close> refuses to connect a node to itself and leaves the
  graph as it is; a graph without an edge from a node to itself has none after a
  connection attempt, nor after any run of attempts.  The ends of the edges are nodes of
  the graph after an attempt if they were before and the two ids given to the handler
  are ids of nodes; the handler itself does not check this.
\<close>

theorem connect_rejects_self_loop:
  "handleConnectNodes d v v = (d, [ToastError ''Cannot connect a node to itself'']) \<and>
   (noSelfLoops (edges d) \<longrightarrow> noSelfLoops (edges (fst (handleConnectNodes d s t)))) \<and>
   (noSelfLoops (edges d) \<longrightarrow> noSelfLoops (edges (connectAll d attempts))) \<and>
   (endpointsExist (nodes d) (edges d) \<and>
    s \<in> set (map node_id (nodes d)) \<and> t \<in> set (map node_id (nodes d)) \<longrightarrow>
      endpointsExist (nodes (fst (handleConnectNodes d s t)))
        (edges (fst (handleConnectNodes d s t))))"
proof -
  have self: "handleConnectNodes d v v = (d, [ToastError ''Cannot connect a node to itself''])"
    by (simp add: handleConnectNodes_def)
  have ends: "endpointsExist (nodes d) (edges d) \<and>
    s \<in> set (map node_id (nodes d)) \<and> t \<in> set (map node_id (nodes d)) \<longrightarrow>
      endpointsExist (nodes (fst (handleConnectNodes d s t)))
        (edges (fst (handleConnectNodes d s t)))"
    using handleConnectNodes_edges[of d s t]
    by (auto simp: handleConnectNodes_nodes endpointsExist_def mkEdge_def)
  from self ends handleConnectNodes_noSelfLoops[of d s t] connectAll_noSelfLoops[of d attempts]
  show ?thesis by blast
qed

theorem connect_rejects_self_loop_witness:
  "noSelfLoops (edges oneEdge) \<and> endpointsExist (nodes oneEdge) (edges oneEdge) \<and>
   handleConnectNodes oneEdge ''A'' ''A'' = (oneEdge, [ToastError ''Cannot connect a node to itself'']) \<and>
   noSelfLoops (edges (connectAll oneEdge [(''B'', ''B''), (''B'', ''A'')])) \<and>
   edges (connectAll oneEdge [(''B'', ''B''), (''B'', ''A'')]) = [mkEdge ''A'' ''B'', mkEdge ''B'' ''A''] \<and>
   endpointsExist (nodes (fst (handleConnectNodes oneEdge ''B'' ''A'')))
     (edges (fst (handleConnectNodes oneEdge ''B'' ''A'')))"
proof -
  have nsl: "noSelfLoops (edges oneEdge)"
    by (simp add: noSelfLoops_def oneEdge_def mkEdge_def)
  have ends: "endpointsExist (nodes oneEdge) (edges oneEdge)"
    and ids: "''B'' \<in> set (map node_id (nodes oneEdge))" "''A'' \<in> set (map node_id (nodes oneEdge))"
    by (simp_all add: endpointsExist_def oneEdge_def mkEdge_def mkNode_def)
  have run: "edges (connectAll oneEdge [(''B'', ''B''), (''B'', ''A'')]) = [mkEdge ''A'' ''B'', mkEdge ''B'' ''A'']"
    by (simp add: connectAll_def handleConnectNodes_def handleEdgeAdded_def mkEdge_def oneEdge_def)
  from connect_rejects_self_loop[of oneEdge "''A''"]
  have self: "handleConnectNodes oneEdge ''A'' ''A'' = (oneEdge, [ToastError ''Cannot connect a node to itself''])"
    by blast
  from nsl connect_rejects_self_loop[of oneEdge _ _ _ "[(''B'', ''B''), (''B'', ''A'')]"]
  have "noSelfLoops (edges (connectAll oneEdge [(''B'', ''B''), (''B'', ''A'')]))"
    by blast
  moreover from ends ids connect_rejects_self_loop[of oneEdge _ "''B''" "''A''"]
  have "endpointsExist (nodes (fst (handleConnectNodes oneEdge ''B'' ''A'')))
     (edges (fst (handleConnectNodes oneEdge ''B'' ''A'')))"
    by blast
  ultimately show ?thesis using nsl ends run self by blast
qed

section \<open>The claims about validation\<close>

subsection \<open>Cycles\<close>

text \<open>
  What holds of the cycle check for every graph: if a directed cycle can be reached from
  a node of the graph, \<open>detectCycle\<close> does not return \<open>false\<close>, so that a validator that
  returns an error list returns one with its cycle message; and if no id names a member
  of \<open>Object.prototype\<close>, the three validators do return.  The designer's search starts
  from every source of an edge and needs no node in front of the cycle.
\<close>

lemma reachable_cycle_never_passes:
  assumes "n \<in> set (nodes d)"
    and "(node_id n, c) \<in> (edgeRel (edges d))\<^sup>*"
    and "(c, c) \<in> (edgeRel (edges d))\<^sup>+"
  shows "detectCycle (nodes d) (edges d) \<noteq> Inr False"
    and "validateWorkflow d = Inr errs \<Longrightarrow> cycleMessage \<in> set errs"
    and "validateWorkflow_page d = Inr errs \<Longrightarrow> cycleMessage \<in> set errs"
    and "validateWorkflow_designer (nodes d) (edges d) = Inr errs
           \<Longrightarrow> cycleMessage_designer \<in> set errs"
proof -
  show no: "detectCycle (nodes d) (edges d) \<noteq> Inr False"
    using assms by (rule detectCycle_complete(1))
  show b: "cycleMessage \<in> set errs" if "validateWorkflow d = Inr errs" for errs
  proof -
    from that obtain c where c: "detectCycle (nodes d) (edges d) = Inr c"
      by (auto simp: validateWorkflow_Inr)
    from c no have c by (cases c) auto
    with that validateWorkflow_of_detectCycle[OF c] show ?thesis by auto
  qed
  show "cycleMessage \<in> set errs" if "validateWorkflow_page d = Inr errs"
    using that b by (auto simp: validateWorkflow_page_Inr)
  show "cycleMessage_designer \<in> set errs"
    if "validateWorkflow_designer (nodes d) (edges d) = Inr errs"
  proof -
    from that obtain g c where g: "adjacencyList (edges d) = Inr g"
      and c: "detectCycle_designer g = Inr c"
      by (auto simp: validateWorkflow_designer_Inr)
    from detectCycle_designer_complete(1)[OF assms(3) g] c have c by (cases c) auto
    with that validateWorkflow_designer_of_detectCycle[OF g c, of "nodes d"]
    show ?thesis by auto
  qed
qed

lemma reachable_cycle_is_reported:
  assumes "n \<in> set (nodes d)"
    and "(node_id n, c) \<in> (edgeRel (edges d))\<^sup>*"
    and "(c, c) \<in> (edgeRel (edges d))\<^sup>+"
    and "noPrototypeIds (nodes d) (edges d)"
  shows "detectCycle (nodes d) (edges d) = Inr True"
    and "\<exists>errs. validateWorkflow d = Inr errs \<and> cycleMessage \<in> set errs"
    and "\<exists>errs. validateWorkflow_page d = Inr errs \<and> cycleMessage \<in> set errs"
    and "\<exists>errs. validateWorkflow_designer (nodes d) (edges d) = Inr errs \<and>
                cycleMessage_designer \<in> set errs"
  using detectCycle_complete(2)[OF assms] validators_return[OF assms(4)]
    reachable_cycle_never_passes(2-4)[OF assms(1-3)]
  by blast+

text \<open>
  C1.  The claim holds for every graph whose ids do not name a member of
  \<open>Object.prototype\<close> (the two lemmas above).  It fails where one does: in the graph with
  the entry node \<open>S\<close> and the edges \<open>S\<rightarrow>constructor\<close>, \<open>constructor\<rightarrow>B\<close>,
  \<open>B\<rightarrow>constructor\<close> a cycle can be reached from the entry node, and filling the
  adjacency list throws at the second edge: \<open>graph['constructor']\<close> is the inherited
  function, so no array is stored and \<open>push\<close> is not a function.  \<open>detectCycle\<close> and the
  three validators end with the exception and give no verdict.
\<close>

theorem prototype_name_cycle_throws:
  "mkNode ''S'' ''input'' \<in> set (entryNodes prototypeCycle) \<and>
   (''S'', ''constructor'') \<in> (edgeRel (edges prototypeCycle))\<^sup>* \<and>
   (''constructor'', ''constructor'') \<in> (edgeRel (edges prototypeCycle))\<^sup>+ \<and>
   pushEdge [(''S'', [''constructor''])] (mkEdge ''constructor'' ''B'') = Inl TypeError \<and>
   detectCycle (nodes prototypeCycle) (edges prototypeCycle) = Inl TypeError \<and>
   validateWorkflow prototypeCycle = Inl TypeError \<and>
   validateWorkflow_page prototypeCycle = Inl TypeError \<and>
   validateWorkflow_designer (nodes prototypeCycle) (edges prototypeCycle) = Inl TypeError"
proof -
  have E: "edgeRel (edges prototypeCycle)
             = {(''S'', ''constructor''), (''constructor'', ''B''), (''B'', ''constructor'')}"
    by (simp add: edgeRel_def prototypeCycle_def mkEdge_def)
  have entry: "mkNode ''S'' ''input'' \<in> set (entryNodes prototypeCycle)"
    by (simp add: entryNodes_def inDegree_def prototypeCycle_def mkNode_def mkEdge_def)
  have reach: "(''S'', ''constructor'') \<in> (edgeRel (edges prototypeCycle))\<^sup>*"
    unfolding E by (rule r_into_rtrancl) simp
  have "(''constructor'', ''B'') \<in> (edgeRel (edges prototypeCycle))\<^sup>+"
    unfolding E by (rule r_into_trancl) simp
  moreover have "(''B'', ''constructor'') \<in> edgeRel (edges prototypeCycle)"
    unfolding E by simp
  ultimately have cyc: "(''constructor'', ''constructor'') \<in> (edgeRel (edges prototypeCycle))\<^sup>+"
    by (rule trancl_into_trancl)
  have push: "pushEdge [(''S'', [''constructor''])] (mkEdge ''constructor'' ''B'') = Inl TypeError"
    by code_simp
  from entry reach cyc push show ?thesis
    by (simp add: validate_prototypeCycle)
qed

text \<open>
  C5, as the specification states it, fails: for the edges \<open>A\<rightarrow>B\<close> and \<open>B\<rightarrow>A\<close> the error
  list is the one cycle message, which contains neither \<open>A\<close> nor \<open>B\<close>.
\<close>

theorem cycle_error_names_no_node:
  "validateWorkflow twoCycle = Inr [cycleMessage] \<and>
   validateWorkflow_page twoCycle = Inr [cycleMessage] \<and>
   \<not> includes_str cycleMessage ''A'' \<and> \<not> includes_str cycleMessage ''B'' \<and>
   validateWorkflow_designer (nodes twoCycle) (edges twoCycle) = Inr [cycleMessage_designer] \<and>
   \<not> includes_str cycleMessage_designer ''A'' \<and> \<not> includes_str cycleMessage_designer ''B''"
proof -
  have "\<not> includes_str cycleMessage ''A''" "\<not> includes_str cycleMessage ''B''"
    "\<not> includes_str cycleMessage_designer ''A''" "\<not> includes_str cycleMessage_designer ''B''"
    by code_simp+
  then show ?thesis by (simp add: validate_twoCycle)
qed

text \<open>
  C5, amended.  When the search finds a cycle, the validators of the two frontend files
  return an error list with the fixed text \<open>cycleMessage\<close> first, and the designer
  returns one with the fixed text \<open>cycleMessage_designer\<close> last; the text is the same
  for every graph and names no node.  When the search returns \<open>false\<close>, the text is not
  in the list.
\<close>

theorem cycle_error_is_fixed_text:
  "(detectCycle (nodes d) (edges d) = Inr True \<longrightarrow>
      (\<exists>errs. validateWorkflow d = Inr errs \<and> errs \<noteq> [] \<and> hd errs = cycleMessage) \<and>
      (\<exists>errs. validateWorkflow_page d = Inr errs \<and> errs \<noteq> [] \<and> hd errs = cycleMessage)) \<and>
   (detectCycle (nodes d) (edges d) = Inr False \<longrightarrow>
      (\<exists>errs. validateWorkflow d = Inr errs \<and> cycleMessage \<notin> set errs) \<and>
      (\<exists>errs. validateWorkflow_page d = Inr errs \<and> cycleMessage \<notin> set errs)) \<and>
   (adjacencyList es = Inr g \<and> detectCycle_designer g = Inr True \<longrightarrow>
      (\<exists>errs. validateWorkflow_designer ns es = Inr errs \<and> errs \<noteq> [] \<and>
              last errs = cycleMessage_designer)) \<and>
   (adjacencyList es = Inr g \<and> detectCycle_designer g = Inr False \<longrightarrow>
      (\<exists>errs. validateWorkflow_designer ns es = Inr errs \<and> cycleMessage_designer \<notin> set errs)) \<and>
   cycleMessage = ''Workflow contains a cycle - this will cause infinite loops!'' \<and>
   cycleMessage_designer = ''Workflow contains a cycle/loop''"
proof -
  have texts: "cycleMessage = ''Workflow contains a cycle - this will cause infinite loops!''"
    "cycleMessage_designer = ''Workflow contains a cycle/loop''"
    by (simp_all add: cycleMessage_def cycleMessage_designer_def)
  have found: "detectCycle (nodes d) (edges d) = Inr True \<longrightarrow>
      (\<exists>errs. validateWorkflow d = Inr errs \<and> errs \<noteq> [] \<and> hd errs = cycleMessage) \<and>
      (\<exists>errs. validateWorkflow_page d = Inr errs \<and> errs \<noteq> [] \<and> hd errs = cycleMessage)"
  proof
    assume c: "detectCycle (nodes d) (edges d) = Inr True"
    from validateWorkflow_of_detectCycle[OF c]
    obtain rest where b: "validateWorkflow d = Inr (cycleMessage # rest)" by simp
    then have "validateWorkflow_page d =
        Inr (cycleMessage # rest @ (if length (terminalNodes d) > 1
                                    then [endNodesMessage (length (terminalNodes d))] else []))"
      by (simp add: validateWorkflow_page_validateWorkflow)
    with b show "(\<exists>errs. validateWorkflow d = Inr errs \<and> errs \<noteq> [] \<and> hd errs = cycleMessage) \<and>
      (\<exists>errs. validateWorkflow_page d = Inr errs \<and> errs \<noteq> [] \<and> hd errs = cycleMessage)"
      by simp
  qed
  have none: "detectCycle (nodes d) (edges d) = Inr False \<longrightarrow>
      (\<exists>errs. validateWorkflow d = Inr errs \<and> cycleMessage \<notin> set errs) \<and>
      (\<exists>errs. validateWorkflow_page d = Inr errs \<and> cycleMessage \<notin> set errs)"
  proof
    assume c: "detectCycle (nodes d) (edges d) = Inr False"
    from validateWorkflow_of_detectCycle[OF c]
    show "(\<exists>errs. validateWorkflow d = Inr errs \<and> cycleMessage \<notin> set errs) \<and>
      (\<exists>errs. validateWorkflow_page d = Inr errs \<and> cycleMessage \<notin> set errs)"
      by (simp add: validateWorkflow_page_validateWorkflow
          messages_distinct messages_distinct[symmetric])
  qed
  have found': "adjacencyList es = Inr g \<and> detectCycle_designer g = Inr True \<longrightarrow>
      (\<exists>errs. validateWorkflow_designer ns es = Inr errs \<and> errs \<noteq> [] \<and>
              last errs = cycleMessage_designer)"
    using validateWorkflow_designer_of_detectCycle[of es g True ns] by auto
  have none': "adjacencyList es = Inr g \<and> detectCycle_designer g = Inr False \<longrightarrow>
      (\<exists>errs. validateWorkflow_designer ns es = Inr errs \<and> cycleMessage_designer \<notin> set errs)"
    using validateWorkflow_designer_of_detectCycle[of es g False ns]
    by (auto simp: messages_distinct messages_distinct[symmetric])
  from texts found none found' none' show ?thesis by blast
qed

theorem cycle_error_is_fixed_text_witness:
  "detectCycle (nodes twoCycle) (edges twoCycle) = Inr True \<and>
   (\<exists>errs. validateWorkflow twoCycle = Inr errs \<and> errs \<noteq> [] \<and> hd errs = cycleMessage) \<and>
   validateWorkflow twoCycle = Inr [cycleMessage] \<and>
   adjacencyList (edges twoCycle) = Inr [(''A'', [''B'']), (''B'', [''A''])] \<and>
   detectCycle_designer [(''A'', [''B'']), (''B'', [''A''])] = Inr True \<and>
   (\<exists>errs. validateWorkflow_designer (nodes twoCycle) (edges twoCycle) = Inr errs \<and>
           errs \<noteq> [] \<and> last errs = cycleMessage_designer) \<and>
   detectCycle (nodes fork) (edges fork) = Inr False \<and>
   (\<exists>errs. validateWorkflow fork = Inr errs \<and> cycleMessage \<notin> set errs)"
proof -
  have c: "detectCycle (nodes twoCycle) (edges twoCycle) = Inr True"
    and g: "adjacencyList (edges twoCycle) = Inr [(''A'', [''B'']), (''B'', [''A''])]"
    and c': "detectCycle_designer [(''A'', [''B'']), (''B'', [''A''])] = Inr True"
    and n: "detectCycle (nodes fork) (edges fork) = Inr False"
    by code_simp+
  note v = validate_twoCycle(1)
  from c cycle_error_is_fixed_text[of twoCycle]
  have b: "\<exists>errs. validateWorkflow twoCycle = Inr errs \<and> errs \<noteq> [] \<and> hd errs = cycleMessage"
    by blast
  from g c' cycle_error_is_fixed_text[of _ "edges twoCycle" "[(''A'', [''B'']), (''B'', [''A''])]"
      "nodes twoCycle"]
  have d: "\<exists>errs. validateWorkflow_designer (nodes twoCycle) (edges twoCycle) = Inr errs \<and>
           errs \<noteq> [] \<and> last errs = cycleMessage_designer"
    by blast
  from n cycle_error_is_fixed_text[of fork]
  have "\<exists>errs. validateWorkflow fork = Inr errs \<and> cycleMessage \<notin> set errs" by blast
  with c g c' v b d n show ?thesis by blast
qed

subsection \<open>Entry and end nodes\<close>







subsection \<open>Disconnected nodes\<close>




subsection \<open>The three validators side by side\<close>

text \<open>
  C8, as stated, fails: the fork \<open>A\<rightarrow>B\<close>, \<open>A\<rightarrow>C\<close> passes \<open>validateWorkflow\<close> of
  \<open>WorkflowBuilder.tsx\<close> and fails that of \<open>workflow/[id]/page.tsx\<close>, which counts two
  end nodes; the edge \<open>A\<rightarrow>B\<close> between two agent nodes passes both and fails the
  designer's validator, which asks for an input and an output node.
\<close>

theorem validators_disagree:
  "validateWorkflow fork = Inr [] \<and>
   validateWorkflow_page fork = Inr [endNodesMessage 2] \<and>
   validateWorkflow oneEdge = Inr [] \<and>
   validateWorkflow_page oneEdge = Inr [] \<and>
   validateWorkflow_designer (nodes oneEdge) (edges oneEdge) = Inr [noInputMessage, noOutputMessage]"
  by (simp add: validate_fork validate_oneEdge)

text \<open>
  C8, amended.  The validator of \<open>workflow/[id]/page.tsx\<close> throws where that of
  \<open>WorkflowBuilder.tsx\<close> throws, and otherwise its error list is the error list of
  \<open>WorkflowBuilder.tsx\<close>, followed by the end-node message when more than one node has
  no outgoing edge.  So a graph that passes the page's validator passes the builder's,
  and the two give the same result for every graph with at most one such node.
\<close>

theorem page_validator_extends_builder:
  "validateWorkflow_page d =
     (case validateWorkflow d of
        Inl err \<Rightarrow> Inl err
      | Inr errs \<Rightarrow>
          Inr (errs @ (if length (terminalNodes d) > 1
                       then [endNodesMessage (length (terminalNodes d))] else []))) \<and>
   (validateWorkflow_page d = Inr [] \<longrightarrow> validateWorkflow d = Inr []) \<and>
   (length (terminalNodes d) \<le> 1 \<longrightarrow> validateWorkflow_page d = validateWorkflow d) \<and>
   (validateWorkflow_page d = Inr []
      \<longleftrightarrow> validateWorkflow d = Inr [] \<and> length (terminalNodes d) \<le> 1)"
  by (auto simp: validateWorkflow_page_validateWorkflow split: sum.splits)

theorem page_validator_extends_builder_witness:
  "validateWorkflow_page oneEdge = Inr [] \<and> validateWorkflow oneEdge = Inr [] \<and>
   length (terminalNodes twoCycle) \<le> 1 \<and>
   validateWorkflow_page twoCycle = validateWorkflow twoCycle \<and>
   validateWorkflow twoCycle = Inr [cycleMessage]"
proof -
  note page = validate_oneEdge(2)
  have few: "length (terminalNodes twoCycle) \<le> 1"
    by (simp add: terminalNodes_def outDegree_def twoCycle_def mkNode_def mkEdge_def)
  from page page_validator_extends_builder[of oneEdge]
  have "validateWorkflow oneEdge = Inr []" by blast
  moreover from few page_validator_extends_builder[of twoCycle]
  have "validateWorkflow_page twoCycle = validateWorkflow twoCycle" by blast
  ultimately show ?thesis using page few validate_twoCycle(1) by blast
qed


section \<open>The claim about starting a run\<close>

text \<open>
  What holds of the two handlers.  The preview of the designer, when validation returns
  a non-empty error list, alerts the whole list, one message per line, and does nothing
  else; it performs its execution steps exactly when the list is empty.  \<open>handleRun\<close> of
  the page sends its request exactly when the flag it reads is \<open>true\<close>; after a change of
  the graph this is the verdict of the validation if the function was created anew in
  that render, and the flag of an earlier render if it was not.
\<close>

lemma handleRunPreview_gates:
  "(validateWorkflow_designer (d_nodes ds) (d_edges ds) = Inr errs \<and> errs \<noteq> [] \<longrightarrow>
      handleRunPreview ds =
        Inr [Alert (''Workflow validation errors:'' @ newline @ join newline errs)]) \<and>
   (handleRunPreview ds = Inr effects \<longrightarrow>
      (list_ex isExecutionStep effects
         \<longleftrightarrow> validateWorkflow_designer (d_nodes ds) (d_edges ds) = Inr [])) \<and>
   (validateWorkflow_designer (d_nodes ds) (d_edges ds) = Inl err \<longrightarrow>
      handleRunPreview ds = Inl err)"
  by (auto simp: handleRunPreview_def split: sum.splits)

lemma handleRun_reads_captured_flag:
  "list_ex isExecutionStep (handleRun st response) \<longleftrightarrow> handleRun_isWorkflowValid st"
  by (auto simp: handleRun_def split: run_response.splits)

lemma handleWorkflowChange_flags:
  assumes "validateWorkflow_page d = Inr errs"
  shows "isWorkflowValid (handleWorkflowChange hooksChanged st d) = (errs = [])"
    and "validationErrors (handleWorkflowChange hooksChanged st d) = errs"
    and "handleRun_isWorkflowValid (handleWorkflowChange hooksChanged st d)
           = (if hooksChanged then errs = [] else handleRun_isWorkflowValid st)"
  using assms by (simp_all add: handleWorkflowChange_def rerender_def)


end
